theory Spec2Isabelle
  imports Main "HOL-Library.AList"
begin

section \<open>Panel Hopper: link pool, single-panel send and fan-out (core.py)\<close>

text \<open>
  The module talks to two collaborators that are not part of it: the display session of
  the radio toolkit (constructor, \<open>_connect\<close>, \<open>send_png\<close>, \<open>_safe_disconnect\<close>) and
  the optional progress callback. Each call to one of them either returns or raises, and
  the module only looks at which of the two happened. A call is therefore answered by a
  response function indexed by the number of outside calls made so far; the world
  records every call in a trace. An attempt deadline (\<open>asyncio.wait_for\<close>) that expires
  while an awaited call is pending is the answer \<open>Fail TimeoutError\<close> to that call.
\<close>

datatype exn = TimeoutError | Exception string

datatype resp = Ok | Fail exn

text \<open>The two pauses of the module: \<open>asyncio.sleep(0.5)\<close> and \<open>asyncio.sleep(self.panel_delay)\<close>.\<close>

datatype pause = Settle | PanelDelay

type_synonym bytes = "nat list"

text \<open>
  A display session object is identified by the index of the constructor call that made it.
  \<open>New_BleDisplaySession address auto_reconnect max_retries\<close> is the constructor call.
\<close>

datatype event =
    New_BleDisplaySession string bool nat
  | Connect nat
  | Send_png nat bytes
  | Safe_disconnect nat
  | Progress string string bool
  | Sleep pause

record PersistentSession =
  ps_mac :: string
  ps_name :: string
  ps_session :: "nat option"
  ps_connected :: bool

text \<open>
  The module-level dictionary keeps insertion order; \<open>AList.update\<close> replaces the value of a
  present key in place and appends an absent key, as a Python dict assignment does.
\<close>

record world =
  PERSISTENT_SESSIONS :: "(string \<times> PersistentSession) list"
  trace :: "event list"
  tick :: nat

definition ext_call :: "(nat \<Rightarrow> resp) \<Rightarrow> event \<Rightarrow> world \<Rightarrow> resp \<times> world" where
  "ext_call orc ev w = (orc (tick w), w\<lparr>trace := trace w @ [ev], tick := Suc (tick w)\<rparr>)"

text \<open>A pause outside any deadline: it only takes time.\<close>

definition sleep :: "pause \<Rightarrow> world \<Rightarrow> world" where
  "sleep p w = w\<lparr>trace := trace w @ [Sleep p]\<rparr>"

subsection \<open>Strings\<close>

text \<open>
  Hardware addresses are ASCII, so \<open>str.upper\<close> is modelled on ASCII letters and leaves
  every other character alone.
\<close>

definition upper_char :: "char \<Rightarrow> char" where
  "upper_char c =
     (let n = (of_char c :: nat) in if 97 \<le> n \<and> n \<le> 122 then char_of (n - 32) else c)"

definition upper :: "string \<Rightarrow> string" where
  "upper s = map upper_char s"

text \<open>\<open>a or b\<close> on strings: the empty string is falsy.\<close>

definition py_or :: "string \<Rightarrow> string \<Rightarrow> string" where
  "py_or a b = (if a = [] then b else a)"

subsection \<open>PersistentSession\<close>

definition PersistentSession_init :: "string \<Rightarrow> string \<Rightarrow> PersistentSession" where
  "PersistentSession_init m nm =
     \<lparr>ps_mac = m, ps_name = py_or nm m, ps_session = None, ps_connected = False\<rparr>"

text \<open>
  \<open>connect\<close>: the constructor and the awaited \<open>_connect\<close> are inside
  \<open>try ... except Exception\<close>, which also catches the expiry of the deadline.
\<close>

definition connect ::
  "(nat \<Rightarrow> resp) \<Rightarrow> PersistentSession \<Rightarrow> world \<Rightarrow> bool \<times> PersistentSession \<times> world" where
  "connect orc self w =
     (if ps_connected self \<and> ps_session self \<noteq> None then (True, self, w)
      else
        (case ext_call orc (New_BleDisplaySession (ps_mac self) True 3) w of
           (Fail e, w1) \<Rightarrow> (False, self\<lparr>ps_connected := False\<rparr>, w1)
         | (Ok, w1) \<Rightarrow>
             (let self1 = self\<lparr>ps_session := Some (tick w)\<rparr> in
              case ext_call orc (Connect (tick w)) w1 of
                (Fail e, w2) \<Rightarrow> (False, self1\<lparr>ps_connected := False\<rparr>, w2)
              | (Ok, w2) \<Rightarrow> (True, self1\<lparr>ps_connected := True\<rparr>, w2))))"

definition send_frame ::
  "(nat \<Rightarrow> resp) \<Rightarrow> PersistentSession \<Rightarrow> bytes \<Rightarrow> world \<Rightarrow> bool \<times> PersistentSession \<times> world" where
  "send_frame orc self png w =
     (case ps_session self of
        None \<Rightarrow> (False, self, w)
      | Some sid \<Rightarrow>
          if \<not> ps_connected self then (False, self, w)
          else
            (case ext_call orc (Send_png sid png) w of
               (Ok, w1) \<Rightarrow> (True, self, w1)
             | (Fail e, w1) \<Rightarrow> (False, self\<lparr>ps_connected := False\<rparr>, w1)))"

text \<open>
  \<open>disconnect\<close>: an exception of \<open>_safe_disconnect\<close> is caught and dropped. The result
  keeps the exception branch of a Python call, so that "does not raise" is a statement.
\<close>

definition disconnect ::
  "(nat \<Rightarrow> resp) \<Rightarrow> PersistentSession \<Rightarrow> world \<Rightarrow> (exn + unit) \<times> PersistentSession \<times> world" where
  "disconnect orc self w =
     (case ps_session self of
        Some sid \<Rightarrow>
          (case ext_call orc (Safe_disconnect sid) w of
             (r, w1) \<Rightarrow> (Inr (), self\<lparr>ps_session := None, ps_connected := False\<rparr>, w1))
      | None \<Rightarrow> (Inr (), self\<lparr>ps_connected := False\<rparr>, w))"

subsection \<open>The pool\<close>

text \<open>A method mutates the object the dictionary holds: the changed object is stored back.\<close>

definition store :: "string \<Rightarrow> PersistentSession \<Rightarrow> world \<Rightarrow> world" where
  "store k s w = w\<lparr>PERSISTENT_SESSIONS := AList.update k s (PERSISTENT_SESSIONS w)\<rparr>"

definition get_persistent_session ::
  "(nat \<Rightarrow> resp) \<Rightarrow> string \<Rightarrow> string \<Rightarrow> world \<Rightarrow> PersistentSession option \<times> world" where
  "get_persistent_session orc m0 nm w =
     (let m = upper m0 in
      if map_of (PERSISTENT_SESSIONS w) m = None \<and> 3 \<le> length (PERSISTENT_SESSIONS w)
      then (None, w)
      else
        (let (session, w1) =
               (case map_of (PERSISTENT_SESSIONS w) m of
                  None \<Rightarrow> (let s = PersistentSession_init m nm in (s, store m s w))
                | Some s \<Rightarrow> (s, w));
             (session', w2) =
               (if \<not> ps_connected session
                then (case connect orc session w1 of (r, s', w') \<Rightarrow> (s', store m s' w'))
                else (session, w1))
         in (if ps_connected session' then Some session' else None, w2)))"

fun disconnect_all ::
  "(nat \<Rightarrow> resp) \<Rightarrow> (string \<times> PersistentSession) list \<Rightarrow> world \<Rightarrow> (exn + unit) \<times> world" where
  "disconnect_all orc [] w = (Inr (), w)"
| "disconnect_all orc ((k, s) # rest) w =
     (case disconnect orc s w of
        (Inl e, s', w') \<Rightarrow> (Inl e, store k s' w')
      | (Inr u, s', w') \<Rightarrow> disconnect_all orc rest (store k s' w'))"

definition close_all_sessions :: "(nat \<Rightarrow> resp) \<Rightarrow> world \<Rightarrow> (exn + unit) \<times> world" where
  "close_all_sessions orc w =
     (case disconnect_all orc (PERSISTENT_SESSIONS w) w of
        (Inl e, w') \<Rightarrow> (Inl e, w')
      | (Inr u, w') \<Rightarrow> (Inr (), w'\<lparr>PERSISTENT_SESSIONS := []\<rparr>))"

subsection \<open>PanelController\<close>

text \<open>
  Of the controller's fields only \<open>retries\<close> and \<open>use_persistent\<close> decide what is done; the
  timing fields are floating-point durations handed on to the collaborators.
\<close>

record PanelController =
  retries :: int
  use_persistent :: bool

definition progress ::
  "(nat \<Rightarrow> resp) option \<Rightarrow> string \<Rightarrow> string \<Rightarrow> bool \<Rightarrow> world \<Rightarrow> (exn + unit) \<times> world" where
  "progress cb m status fin w =
     (case cb of
        None \<Rightarrow> (Inr (), w)
      | Some f \<Rightarrow>
          (case ext_call f (Progress m status fin) w of
             (Ok, w1) \<Rightarrow> (Inr (), w1)
           | (Fail e, w1) \<Rightarrow> (Inl e, w1)))"

text \<open>
  The inner coroutine \<open>send_with_session\<close>, run under the attempt deadline. The second
  component is the \<open>nonlocal session\<close> variable as the coroutine leaves it. The settle
  pause is awaited under the deadline as well: it either completes or is cut short by the
  expiry of the deadline, and no other answer to it makes a difference.
\<close>

definition send_with_session ::
  "(nat \<Rightarrow> resp) \<Rightarrow> string \<Rightarrow> bytes \<Rightarrow> (nat \<Rightarrow> resp) option \<Rightarrow> world
     \<Rightarrow> (exn + bool) \<times> nat option \<times> world" where
  "send_with_session orc m png cb w =
     (case ext_call orc (New_BleDisplaySession m False 1) w of
        (Fail e, w1) \<Rightarrow> (Inl e, None, w1)
      | (Ok, w1) \<Rightarrow>
          (let sid = tick w in
           case ext_call orc (Connect sid) w1 of
             (Fail e, w2) \<Rightarrow> (Inl e, Some sid, w2)
           | (Ok, w2) \<Rightarrow>
               (case progress cb m ''sending'' False w2 of
                  (Inl e, w3) \<Rightarrow> (Inl e, Some sid, w3)
                | (Inr u, w3) \<Rightarrow>
                    (case ext_call orc (Send_png sid png) w3 of
                       (Fail e, w4) \<Rightarrow> (Inl e, Some sid, w4)
                     | (Ok, w4) \<Rightarrow>
                         (case ext_call orc (Sleep Settle) w4 of
                            (Fail TimeoutError, w5) \<Rightarrow> (Inl TimeoutError, Some sid, w5)
                          | (r, w5) \<Rightarrow> (Inr True, Some sid, w5))))))"

text \<open>
  The two \<open>except\<close> clauses. \<open>None\<close> means that the clause falls through to the next
  iteration of the loop.
\<close>

definition handle_exn ::
  "PanelController \<Rightarrow> string \<Rightarrow> (nat \<Rightarrow> resp) option \<Rightarrow> int \<Rightarrow> exn \<Rightarrow> world
     \<Rightarrow> (exn + (bool \<times> string) option) \<times> world" where
  "handle_exn c m cb attempt e w =
     (case e of
        TimeoutError \<Rightarrow>
          if attempt = retries c then
            (case progress cb m ''timeout'' False w of
               (Inl e', w1) \<Rightarrow> (Inl e', w1)
             | (Inr u, w1) \<Rightarrow> (Inr (Some (False, ''Connection timeout'')), w1))
          else (Inr None, w)
      | Exception error_msg \<Rightarrow>
          if attempt = retries c then
            (case progress cb m (''error: '' @ error_msg) False w of
               (Inl e', w1) \<Rightarrow> (Inl e', w1)
             | (Inr u, w1) \<Rightarrow> (Inr (Some (False, error_msg)), w1))
          else (Inr None, w))"

text \<open>The \<open>finally\<close> clause.\<close>

definition cleanup :: "PanelController \<Rightarrow> (nat \<Rightarrow> resp) \<Rightarrow> nat option \<Rightarrow> world \<Rightarrow> world" where
  "cleanup c orc session w =
     sleep PanelDelay
       (case session of
          Some sid \<Rightarrow>
            if \<not> use_persistent c then snd (ext_call orc (Safe_disconnect sid) w) else w
        | None \<Rightarrow> w)"

text \<open>
  What follows the awaited coroutine inside the \<open>try\<close>: the success report and the
  \<open>return True, "OK"\<close>, or the \<open>except\<close> clause that matches. An exception of the
  success report is raised inside the \<open>try\<close>, so the \<open>except\<close> clauses see it.
\<close>

definition try_outcome ::
  "PanelController \<Rightarrow> string \<Rightarrow> (nat \<Rightarrow> resp) option \<Rightarrow> int \<Rightarrow> exn + bool \<Rightarrow> world
     \<Rightarrow> (exn + (bool \<times> string) option) \<times> world" where
  "try_outcome c m cb attempt r w =
     (case r of
        Inl e \<Rightarrow> handle_exn c m cb attempt e w
      | Inr res \<Rightarrow>
          (case progress cb m ''success'' True w of
             (Inl e, w1) \<Rightarrow> handle_exn c m cb attempt e w1
           | (Inr u, w1) \<Rightarrow> (Inr (Some (True, ''OK'')), w1)))"

text \<open>
  One iteration of the loop over \<open>range(1, self.retries + 1)\<close>. The report
  \<open>"connecting"\<close> is made before the \<open>try\<close>: its exception leaves the function at once.
\<close>

definition attempt_once ::
  "PanelController \<Rightarrow> (nat \<Rightarrow> resp) \<Rightarrow> string \<Rightarrow> bytes \<Rightarrow> (nat \<Rightarrow> resp) option \<Rightarrow> int \<Rightarrow> world
     \<Rightarrow> (exn + (bool \<times> string) option) \<times> world" where
  "attempt_once c orc m png cb attempt w =
     (case progress cb m ''connecting'' False w of
        (Inl e, w1) \<Rightarrow> (Inl e, w1)
      | (Inr u, w1) \<Rightarrow>
          (case send_with_session orc m png cb w1 of
             (r, session, w2) \<Rightarrow>
               (case try_outcome c m cb attempt r w2 of
                  (out, w3) \<Rightarrow> (out, cleanup c orc session w3))))"

fun fresh_connection ::
  "PanelController \<Rightarrow> (nat \<Rightarrow> resp) \<Rightarrow> string \<Rightarrow> bytes \<Rightarrow> (nat \<Rightarrow> resp) option \<Rightarrow> int list \<Rightarrow> world
     \<Rightarrow> (exn + (bool \<times> string) option) \<times> world" where
  "fresh_connection c orc m png cb [] w = (Inr None, w)"
| "fresh_connection c orc m png cb (attempt # rest) w =
     (case attempt_once c orc m png cb attempt w of
        (Inl e, w') \<Rightarrow> (Inl e, w')
      | (Inr (Some out), w') \<Rightarrow> (Inr (Some out), w')
      | (Inr None, w') \<Rightarrow> fresh_connection c orc m png cb rest w')"

text \<open>Lines 251 to 322: the loop, then the statement after it.\<close>

definition fall_back ::
  "PanelController \<Rightarrow> (nat \<Rightarrow> resp) \<Rightarrow> string \<Rightarrow> bytes \<Rightarrow> (nat \<Rightarrow> resp) option \<Rightarrow> world
     \<Rightarrow> (exn + bool \<times> string) \<times> world" where
  "fall_back c orc m png cb w =
     (case fresh_connection c orc m png cb [1..retries c] w of
        (Inl e, w') \<Rightarrow> (Inl e, w')
      | (Inr (Some out), w') \<Rightarrow> (Inr out, w')
      | (Inr None, w') \<Rightarrow> (Inr (False, ''Max retries exceeded''), w'))"

text \<open>
  Lines 234 to 249: the attempt over the pooled link. \<open>None\<close> means that control
  reaches the loop below; \<open>Some\<close> is a \<open>return\<close> or an exception that leaves the function.
\<close>

definition persistent_path ::
  "PanelController \<Rightarrow> (nat \<Rightarrow> resp) \<Rightarrow> string \<Rightarrow> bytes \<Rightarrow> string \<Rightarrow> (nat \<Rightarrow> resp) option \<Rightarrow> world
     \<Rightarrow> (exn + bool \<times> string) option \<times> world" where
  "persistent_path c orc m png display_name cb w =
     (if use_persistent c then
        (case get_persistent_session orc m display_name w of
           (None, w1) \<Rightarrow> (None, w1)
         | (Some persistent, w1) \<Rightarrow>
             if \<not> ps_connected persistent then (None, w1)
             else
               (case progress cb m ''sending'' False w1 of
                  (Inl e, w2) \<Rightarrow> (Some (Inl e), w2)
                | (Inr u, w2) \<Rightarrow>
                    (case send_frame orc persistent png w2 of
                       (success, persistent', w3) \<Rightarrow>
                         (let w4 = store (upper m) persistent' w3 in
                          if success then
                            (case progress cb m ''success'' True w4 of
                               (Inl e, w5) \<Rightarrow> (Some (Inl e), w5)
                             | (Inr u', w5) \<Rightarrow> (Some (Inr (True, ''OK'')), w5))
                          else (None, w4)))))
      else (None, w))"

definition send_to_panel ::
  "PanelController \<Rightarrow> (nat \<Rightarrow> resp) \<Rightarrow> string \<Rightarrow> bytes \<Rightarrow> string option \<Rightarrow> (nat \<Rightarrow> resp) option
     \<Rightarrow> world \<Rightarrow> (exn + bool \<times> string) \<times> world" where
  "send_to_panel c orc m png nm cb w =
     (let display_name = (case nm of None \<Rightarrow> m | Some n \<Rightarrow> py_or n m) in
      case persistent_path c orc m png display_name cb w of
        (Some r, w1) \<Rightarrow> (r, w1)
      | (None, w1) \<Rightarrow> fall_back c orc m png cb w1)"

fun send_to_multiple_loop ::
  "PanelController \<Rightarrow> (nat \<Rightarrow> resp) \<Rightarrow> (nat \<Rightarrow> resp) option \<Rightarrow> (string \<times> bool \<times> string) list
     \<Rightarrow> (string \<times> string \<times> bytes) list \<Rightarrow> world \<Rightarrow> (exn + (string \<times> bool \<times> string) list) \<times> world" where
  "send_to_multiple_loop c orc cb results [] w = (Inr results, w)"
| "send_to_multiple_loop c orc cb results ((m, nm, png) # rest) w =
     (case send_to_panel c orc m png (Some nm) cb w of
        (Inl e, w') \<Rightarrow> (Inl e, w')
      | (Inr (success, message), w') \<Rightarrow>
          send_to_multiple_loop c orc cb (results @ [(m, success, message)]) rest w')"

definition send_to_multiple ::
  "PanelController \<Rightarrow> (nat \<Rightarrow> resp) \<Rightarrow> (string \<times> string \<times> bytes) list \<Rightarrow> (nat \<Rightarrow> resp) option
     \<Rightarrow> world \<Rightarrow> (exn + (string \<times> bool \<times> string) list) \<times> world" where
  "send_to_multiple c orc panels cb w = send_to_multiple_loop c orc cb [] panels w"

definition send_same_to_all ::
  "PanelController \<Rightarrow> (nat \<Rightarrow> resp) \<Rightarrow> (string \<times> string) list \<Rightarrow> bytes \<Rightarrow> (nat \<Rightarrow> resp) option
     \<Rightarrow> world \<Rightarrow> (exn + (string \<times> bool \<times> string) list) \<times> world" where
  "send_same_to_all c orc macs png cb w =
     send_to_multiple c orc (map (\<lambda>(m, nm). (m, nm, png)) macs) cb w"

subsection \<open>Notions used to state the properties\<close>

text \<open>The state of a process that has just loaded the module.\<close>

definition initial_world :: world where
  "initial_world = \<lparr>PERSISTENT_SESSIONS = [], trace = [], tick = 0\<rparr>"



text \<open>The \<open>_safe_disconnect\<close> calls due for a pool: one per entry that has a session object.\<close>

definition closed_sessions :: "(string \<times> PersistentSession) list \<Rightarrow> event list" where
  "closed_sessions pool =
     concat (map (\<lambda>(k, s). case ps_session s of None \<Rightarrow> [] | Some sid \<Rightarrow> [Safe_disconnect sid]) pool)"

text \<open>A progress callback that is absent, or that returns from every call.\<close>

definition cb_quiet :: "(nat \<Rightarrow> resp) option \<Rightarrow> bool" where
  "cb_quiet cb = (case cb of None \<Rightarrow> True | Some f \<Rightarrow> \<forall>n. f n = Ok)"

text \<open>
  The retry rule in the words of the specification, for attempt number \<open>attempt\<close> of \<open>R\<close>
  and the result \<open>r\<close> of the bounded connect-and-send: \<open>None\<close> is "continue to the next
  attempt".
\<close>

definition attempt_outcome :: "int \<Rightarrow> int \<Rightarrow> exn + bool \<Rightarrow> (bool \<times> string) option" where
  "attempt_outcome R attempt r =
     (case r of
        Inr ok \<Rightarrow> Some (True, ''OK'')
      | Inl TimeoutError \<Rightarrow> if attempt = R then Some (False, ''Connection timeout'') else None
      | Inl (Exception msg) \<Rightarrow> if attempt = R then Some (False, msg) else None)"

text \<open>The events a call added to the trace.\<close>

definition new_events :: "world \<Rightarrow> world \<Rightarrow> event list" where
  "new_events w w' = drop (length (trace w)) (trace w')"

text \<open>
  One attempt, seen from its start: whether the \<open>"connecting"\<close> report returned, so that
  the \<open>try\<close> is entered; the result of the bounded connect-and-send; and the session object
  the attempt made, if its constructor returned.
\<close>

definition entered_try :: "(nat \<Rightarrow> resp) option \<Rightarrow> string \<Rightarrow> world \<Rightarrow> bool" where
  "entered_try cb m w = (fst (progress cb m ''connecting'' False w) = Inr ())"

definition attempt_result ::
  "(nat \<Rightarrow> resp) \<Rightarrow> string \<Rightarrow> bytes \<Rightarrow> (nat \<Rightarrow> resp) option \<Rightarrow> world \<Rightarrow> exn + bool" where
  "attempt_result orc m png cb w =
     fst (send_with_session orc m png cb (snd (progress cb m ''connecting'' False w)))"

definition attempt_session ::
  "(nat \<Rightarrow> resp) \<Rightarrow> string \<Rightarrow> bytes \<Rightarrow> (nat \<Rightarrow> resp) option \<Rightarrow> world \<Rightarrow> nat option" where
  "attempt_session orc m png cb w =
     fst (snd (send_with_session orc m png cb (snd (progress cb m ''connecting'' False w))))"

subsection \<open>Sample collaborators and inputs\<close>

text \<open>A collaborator that returns from every call, and a callback that raises at every call.\<close>

definition all_ok :: "nat \<Rightarrow> resp" where
  "all_ok n = Ok"

definition always_raises :: "nat \<Rightarrow> resp" where
  "always_raises n = Fail (Exception ''boom'')"

text \<open>
  Three targets without pooled links and two attempts each: both \<open>_connect\<close> calls for the
  second target (outside calls 6 and 9) fail.
\<close>

definition scenario_b :: "nat \<Rightarrow> resp" where
  "scenario_b n = (if n = 6 \<or> n = 9 then Fail (Exception ''unreachable'') else Ok)"

text \<open>The deadline expires during the first \<open>_connect\<close>; every later call returns.\<close>

definition timeout_then_ok :: "nat \<Rightarrow> resp" where
  "timeout_then_ok n = (if n = 1 then Fail TimeoutError else Ok)"

text \<open>
  The pooled link fails to connect (call 1), and the deadline expires during the
  \<open>_connect\<close> of the fresh session (call 3).
\<close>

definition pool_down_deadline :: "nat \<Rightarrow> resp" where
  "pool_down_deadline n =
     (if n = 1 then Fail (Exception ''no link'') else if n = 3 then Fail TimeoutError else Ok)"

definition three_panels :: "(string \<times> string \<times> bytes) list" where
  "three_panels = [(''AA:01'', ''left'', []), (''AA:02'', ''mid'', []), (''AA:03'', ''right'', [])]"


text \<open>A pool of three links, one of which never got a session object.\<close>

definition three_links :: world where
  "three_links =
     \<lparr>PERSISTENT_SESSIONS =
        [(''AA'', \<lparr>ps_mac = ''AA'', ps_name = ''left'', ps_session = Some 0, ps_connected = True\<rparr>),
         (''BB'', \<lparr>ps_mac = ''BB'', ps_name = ''mid'', ps_session = None, ps_connected = False\<rparr>),
         (''CC'', \<lparr>ps_mac = ''CC'', ps_name = ''right'', ps_session = Some 4, ps_connected = False\<rparr>)],
      trace = [], tick = 6\<rparr>"

section \<open>Properties\<close>

subsection \<open>The pool\<close>

lemma ext_call_pool [simp]: "PERSISTENT_SESSIONS (snd (ext_call orc ev w)) = PERSISTENT_SESSIONS w"
  by (simp add: ext_call_def)

lemma ext_call_trace [simp]: "trace (snd (ext_call orc ev w)) = trace w @ [ev]"
  by (simp add: ext_call_def)

lemma connect_pool: "connect orc s w = (r, s', w') \<Longrightarrow> PERSISTENT_SESSIONS w' = PERSISTENT_SESSIONS w"
  by (auto simp: connect_def ext_call_def Let_def split: if_splits resp.splits prod.splits)

lemma connect_connected: "connect orc s w = (r, s', w') \<Longrightarrow> ps_connected s' = r"
  by (auto simp: connect_def ext_call_def Let_def split: if_splits resp.splits prod.splits)

lemma update_absent: "map_of al k = None \<Longrightarrow> AList.update k v al = al @ [(k, v)]"
  by (induction al) (auto split: if_splits)

lemma update_last: "map_of al k = None \<Longrightarrow> AList.update k v (al @ [(k, v0)]) = al @ [(k, v)]"
  by (induction al) (auto split: if_splits)

lemma length_update_present: "map_of al k \<noteq> None \<Longrightarrow> length (AList.update k v al) = length al"
  by (induction al) (auto split: if_splits)

lemma store_keys_present:
  "map_of (PERSISTENT_SESSIONS w) k \<noteq> None \<Longrightarrow> map fst (PERSISTENT_SESSIONS (store k s w)) = map fst (PERSISTENT_SESSIONS w)"
  by (simp add: store_def update_keys map_of_eq_None_iff)

lemma gps_full:
  "map_of (PERSISTENT_SESSIONS w) (upper m) = None \<Longrightarrow> 3 \<le> length (PERSISTENT_SESSIONS w) \<Longrightarrow>
   get_persistent_session orc m nm w = (None, w)"
  by (simp add: get_persistent_session_def)

lemma gps_fresh:
  assumes "map_of (PERSISTENT_SESSIONS w) (upper m) = None" "length (PERSISTENT_SESSIONS w) < 3"
    and "connect orc (PersistentSession_init (upper m) nm) w = (r, s', w')"
  shows "get_persistent_session orc m nm w =
     (if r then Some s' else None, w'\<lparr>PERSISTENT_SESSIONS := PERSISTENT_SESSIONS w @ [(upper m, s')]\<rparr>)"
proof -
  let ?s0 = "PersistentSession_init (upper m) nm"
  let ?w1 = "store (upper m) ?s0 w"
  have w1: "?w1 = w\<lparr>PERSISTENT_SESSIONS := PERSISTENT_SESSIONS w @ [(upper m, ?s0)]\<rparr>"
    using assms(1) by (simp add: store_def update_absent)
  have c1: "connect orc ?s0 ?w1 = (r, s', w'\<lparr>PERSISTENT_SESSIONS := PERSISTENT_SESSIONS w @ [(upper m, ?s0)]\<rparr>)"
    using assms(3) unfolding w1
    by (auto simp: connect_def ext_call_def Let_def PersistentSession_init_def split: if_splits resp.splits prod.splits)
  have nc: "\<not> ps_connected ?s0" by (simp add: PersistentSession_init_def)
  have st: "store (upper m) s' (w'\<lparr>PERSISTENT_SESSIONS := PERSISTENT_SESSIONS w @ [(upper m, ?s0)]\<rparr>)
        = w'\<lparr>PERSISTENT_SESSIONS := PERSISTENT_SESSIONS w @ [(upper m, s')]\<rparr>"
    using assms(1) by (simp add: store_def update_last)
  have cc: "ps_connected s' = r" using assms(3) by (rule connect_connected)
  show ?thesis
    using assms(1,2) nc c1 st cc
    by (simp add: get_persistent_session_def Let_def)
qed

lemma gps_present:
  assumes "map_of (PERSISTENT_SESSIONS w) (upper m) = Some s"
  shows "map fst (PERSISTENT_SESSIONS (snd (get_persistent_session orc m nm w))) = map fst (PERSISTENT_SESSIONS w)"
proof (cases "ps_connected s")
  case True
  then show ?thesis using assms by (simp add: get_persistent_session_def Let_def)
next
  case False
  obtain r s' w' where c: "connect orc s w = (r, s', w')" by (cases "connect orc s w") auto
  have "PERSISTENT_SESSIONS w' = PERSISTENT_SESSIONS w" using c by (rule connect_pool)
  then have "map fst (PERSISTENT_SESSIONS (store (upper m) s' w')) = map fst (PERSISTENT_SESSIONS w)"
    using assms store_keys_present[of w' "upper m" s'] by simp
  then show ?thesis using assms False c by (simp add: get_persistent_session_def Let_def)
qed



subsection \<open>Teardown\<close>

lemma store_trace [simp]: "trace (store k s w) = trace w"
  by (simp add: store_def)

lemma store_tick [simp]: "tick (store k s w) = tick w"
  by (simp add: store_def)

lemma disconnect_no_raise: "fst (disconnect orc s w) = Inr ()"
  by (simp add: disconnect_def split: option.splits prod.splits)

lemma disconnect_trace:
  "trace (snd (snd (disconnect orc s w))) =
     trace w @ (case ps_session s of None \<Rightarrow> [] | Some sid \<Rightarrow> [Safe_disconnect sid])"
  by (simp add: disconnect_def ext_call_def split: option.splits)

lemma disconnect_all_result:
  "fst (disconnect_all orc pool w) = Inr () \<and>
   trace (snd (disconnect_all orc pool w)) = trace w @ closed_sessions pool"
proof (induction pool arbitrary: w)
  case Nil
  show ?case by (simp add: closed_sessions_def)
next
  case (Cons p pool)
  obtain k s where p: "p = (k, s)" by (cases p)
  obtain r s' w' where d: "disconnect orc s w = (r, s', w')" by (cases "disconnect orc s w") auto
  have r: "r = Inr ()" using disconnect_no_raise[of orc s w] d by simp
  have t: "trace w' = trace w @ (case ps_session s of None \<Rightarrow> [] | Some sid \<Rightarrow> [Safe_disconnect sid])"
    using disconnect_trace[of orc s w] d by simp
  have step: "disconnect_all orc (p # pool) w = disconnect_all orc pool (store k s' w')"
    using p d r by simp
  show ?case
    unfolding step using Cons.IH[of "store k s' w'"] t p
    by (simp add: closed_sessions_def)
qed

lemma close_all_result:
  "fst (close_all_sessions orc w) = Inr () \<and>
   PERSISTENT_SESSIONS (snd (close_all_sessions orc w)) = [] \<and>
   trace (snd (close_all_sessions orc w)) = trace w @ closed_sessions (PERSISTENT_SESSIONS w)"
proof -
  obtain r w' where d: "disconnect_all orc (PERSISTENT_SESSIONS w) w = (r, w')"
    by (cases "disconnect_all orc (PERSISTENT_SESSIONS w) w") auto
  have "r = Inr ()" and "trace w' = trace w @ closed_sessions (PERSISTENT_SESSIONS w)"
    using disconnect_all_result[of orc "PERSISTENT_SESSIONS w" w] d by simp_all
  then show ?thesis using d by (simp add: close_all_sessions_def)
qed

lemma close_all_empty:
  "PERSISTENT_SESSIONS w = [] \<Longrightarrow> close_all_sessions orc w = (Inr (), w)"
  by (simp add: close_all_sessions_def)

subsection \<open>Progress reports and the except clauses\<close>

lemma progress_quiet: "cb_quiet cb \<Longrightarrow> fst (progress cb m st fin w) = Inr ()"
  by (auto simp: cb_quiet_def progress_def ext_call_def split: option.splits resp.splits)

lemma progress_pool [simp]:
  "PERSISTENT_SESSIONS (snd (progress cb m st fin w)) = PERSISTENT_SESSIONS w"
  by (auto simp: progress_def ext_call_def split: option.splits resp.splits)

lemma progress_trace:
  "trace (snd (progress cb m st fin w)) =
     trace w @ (case cb of None \<Rightarrow> [] | Some f \<Rightarrow> [Progress m st fin])"
  by (auto simp: progress_def ext_call_def split: option.splits resp.splits)

lemma handle_exn_quiet:
  "cb_quiet cb \<Longrightarrow> fst (handle_exn c m cb k e w) = Inr (attempt_outcome (retries c) k (Inl e))"
  by (cases cb; cases e)
     (auto simp: handle_exn_def attempt_outcome_def cb_quiet_def progress_def ext_call_def)

lemma handle_exn_final: "fst (handle_exn c m cb (retries c) e w) \<noteq> Inr None"
  by (auto simp: handle_exn_def split: exn.splits prod.splits sum.splits)

lemma handle_exn_pool [simp]:
  "PERSISTENT_SESSIONS (snd (handle_exn c m cb k e w)) = PERSISTENT_SESSIONS w"
  by (cases cb; cases e)
     (auto simp: handle_exn_def progress_def ext_call_def split: resp.splits)

lemma handle_exn_trace:
  "\<exists>evs. trace (snd (handle_exn c m cb k e w)) = trace w @ evs \<and>
         (\<forall>ev \<in> set evs. \<exists>a b f. ev = Progress a b f)"
  by (cases cb; cases e)
     (auto simp: handle_exn_def progress_def ext_call_def split: resp.splits)

subsection \<open>One attempt over a fresh connection\<close>

lemma sws_session:
  "fst (snd (send_with_session orc m png cb w)) = (if orc (tick w) = Ok then Some (tick w) else None)"
  by (auto simp: send_with_session_def ext_call_def Let_def split: resp.splits prod.splits sum.splits exn.splits)

lemma sws_pool [simp]:
  "PERSISTENT_SESSIONS (snd (snd (send_with_session orc m png cb w))) = PERSISTENT_SESSIONS w"
  by (cases cb)
     (auto simp: send_with_session_def progress_def ext_call_def Let_def
           split: resp.splits prod.splits sum.splits exn.splits)

lemma sws_trace:
  "\<exists>evs. trace (snd (snd (send_with_session orc m png cb w))) = trace w @ evs \<and>
         (\<forall>sid. Safe_disconnect sid \<notin> set evs) \<and> Sleep PanelDelay \<notin> set evs"
  by (cases cb)
     (auto simp: send_with_session_def progress_def ext_call_def Let_def
           split: resp.splits prod.splits sum.splits exn.splits)

lemma sws_success:
  "fst (send_with_session orc m png cb w) = Inr b \<Longrightarrow>
   \<exists>pre. trace (snd (snd (send_with_session orc m png cb w))) =
           trace w @ pre @ [Send_png (tick w) png, Sleep Settle]"
  by (cases cb)
     (auto simp: send_with_session_def progress_def ext_call_def Let_def
           split: resp.splits prod.splits sum.splits exn.splits)

lemma try_outcome_quiet:
  "cb_quiet cb \<Longrightarrow> fst (try_outcome c m cb k r w) = Inr (attempt_outcome (retries c) k r)"
proof (cases r)
  case (Inl e)
  assume "cb_quiet cb"
  then show ?thesis using Inl by (simp add: try_outcome_def handle_exn_quiet)
next
  case (Inr b)
  assume "cb_quiet cb"
  then have "fst (progress cb m ''success'' True w) = Inr ()" by (rule progress_quiet)
  then show ?thesis using Inr
    by (auto simp: try_outcome_def attempt_outcome_def split: prod.splits sum.splits)
qed

lemma try_outcome_final: "fst (try_outcome c m cb (retries c) r w) \<noteq> Inr None"
  by (auto simp: try_outcome_def handle_exn_final split: prod.splits sum.splits)

lemma try_outcome_pool [simp]:
  "PERSISTENT_SESSIONS (snd (try_outcome c m cb k r w)) = PERSISTENT_SESSIONS w"
proof (cases r)
  case (Inl e)
  then show ?thesis by (simp add: try_outcome_def)
next
  case (Inr b)
  obtain q w1 where p: "progress cb m ''success'' True w = (q, w1)"
    by (cases "progress cb m ''success'' True w") auto
  have "PERSISTENT_SESSIONS w1 = PERSISTENT_SESSIONS w"
    using progress_pool[of cb m "''success''" True w] p by simp
  then show ?thesis using Inr p
    by (cases q) (simp_all add: try_outcome_def)
qed

lemma try_outcome_trace:
  "\<exists>evs. trace (snd (try_outcome c m cb k r w)) = trace w @ evs \<and>
         (\<forall>ev \<in> set evs. \<exists>a b f. ev = Progress a b f)"
proof (cases r)
  case (Inl e)
  then show ?thesis using handle_exn_trace[of c m cb k e w] by (simp add: try_outcome_def)
next
  case (Inr b)
  obtain q w1 where p: "progress cb m ''success'' True w = (q, w1)"
    by (cases "progress cb m ''success'' True w") auto
  have t1: "trace w1 = trace w @ (case cb of None \<Rightarrow> [] | Some f \<Rightarrow> [Progress m ''success'' True])"
    using progress_trace[of cb m "''success''" True w] p by simp
  show ?thesis
  proof (cases q)
    case (Inl e)
    obtain evs where "trace (snd (handle_exn c m cb k e w1)) = trace w1 @ evs"
      "\<forall>ev \<in> set evs. \<exists>a b f. ev = Progress a b f"
      using handle_exn_trace[of c m cb k e w1] by blast
    then show ?thesis using Inr Inl p t1
      by (cases cb) (auto simp: try_outcome_def)
  next
    case (Inr u)
    then show ?thesis using \<open>r = Inr b\<close> p t1
      by (cases cb) (auto simp: try_outcome_def)
  qed
qed

lemma cleanup_pool [simp]:
  "PERSISTENT_SESSIONS (cleanup c orc session w) = PERSISTENT_SESSIONS w"
  by (simp add: cleanup_def sleep_def ext_call_def split: option.splits)

lemma cleanup_trace:
  "trace (cleanup c orc session w) =
     trace w @ (case session of
                  Some sid \<Rightarrow> if use_persistent c then [] else [Safe_disconnect sid]
                | None \<Rightarrow> []) @ [Sleep PanelDelay]"
  by (simp add: cleanup_def sleep_def ext_call_def split: option.splits)

lemma attempt_once_eq:
  assumes "progress cb m ''connecting'' False w = (Inr u, w1)"
    and "send_with_session orc m png cb w1 = (r, session, w2)"
  shows "attempt_once c orc m png cb k w =
           (fst (try_outcome c m cb k r w2), cleanup c orc session (snd (try_outcome c m cb k r w2)))"
  using assms by (simp add: attempt_once_def split: prod.splits)

lemma attempt_once_raise:
  "progress cb m ''connecting'' False w = (Inl e, w1) \<Longrightarrow>
   attempt_once c orc m png cb k w = (Inl e, w1)"
  by (simp add: attempt_once_def)

lemma attempt_once_pool [simp]:
  "PERSISTENT_SESSIONS (snd (attempt_once c orc m png cb k w)) = PERSISTENT_SESSIONS w"
proof -
  obtain q w1 where p: "progress cb m ''connecting'' False w = (q, w1)"
    by (cases "progress cb m ''connecting'' False w") auto
  have p1: "PERSISTENT_SESSIONS w1 = PERSISTENT_SESSIONS w"
    using progress_pool[of cb m "''connecting''" False w] p by simp
  show ?thesis
  proof (cases q)
    case (Inl e)
    then show ?thesis using p p1 by (simp add: attempt_once_raise)
  next
    case (Inr u)
    obtain r session w2 where s: "send_with_session orc m png cb w1 = (r, session, w2)"
      by (cases "send_with_session orc m png cb w1") auto
    have "PERSISTENT_SESSIONS w2 = PERSISTENT_SESSIONS w1"
      using sws_pool[of orc m png cb w1] s by simp
    then show ?thesis using p p1 s Inr by (simp add: attempt_once_eq)
  qed
qed

lemma attempt_once_quiet:
  assumes "cb_quiet cb"
  shows "fst (attempt_once c orc m png cb k w) =
     Inr (attempt_outcome (retries c) k
            (fst (send_with_session orc m png cb (snd (progress cb m ''connecting'' False w)))))"
proof -
  obtain w1 where p: "progress cb m ''connecting'' False w = (Inr (), w1)"
    using progress_quiet[OF assms, of m "''connecting''" False w]
    by (cases "progress cb m ''connecting'' False w") auto
  obtain r session w2 where s: "send_with_session orc m png cb w1 = (r, session, w2)"
    by (cases "send_with_session orc m png cb w1") auto
  show ?thesis
    using attempt_once_eq[OF p s, of c k] p s try_outcome_quiet[OF assms, of c m k r w2]
    by simp
qed

lemma attempt_once_final:
  "fst (attempt_once c orc m png cb (retries c) w) \<noteq> Inr None"
proof -
  obtain q w1 where p: "progress cb m ''connecting'' False w = (q, w1)"
    by (cases "progress cb m ''connecting'' False w") auto
  show ?thesis
  proof (cases q)
    case (Inl e)
    then show ?thesis using p by (simp add: attempt_once_raise)
  next
    case (Inr u)
    obtain r session w2 where s: "send_with_session orc m png cb w1 = (r, session, w2)"
      by (cases "send_with_session orc m png cb w1") auto
    show ?thesis using p s Inr try_outcome_final[of c m cb r w2] by (simp add: attempt_once_eq)
  qed
qed

subsection \<open>Acquisition and the pooled send\<close>

lemma connect_trace:
  "\<exists>evs. trace (snd (snd (connect orc s w))) = trace w @ evs \<and>
         (\<forall>ev \<in> set evs. (\<exists>a. ev = New_BleDisplaySession a True 3) \<or> (\<exists>n. ev = Connect n))"
  by (auto simp: connect_def ext_call_def Let_def split: resp.splits)

lemma gps_connected:
  "map_of (PERSISTENT_SESSIONS w) (upper m) = Some s \<Longrightarrow> ps_connected s \<Longrightarrow>
   get_persistent_session orc m nm w = (Some s, w)"
  by (simp add: get_persistent_session_def)

lemma gps_reconnect:
  "map_of (PERSISTENT_SESSIONS w) (upper m) = Some s \<Longrightarrow> \<not> ps_connected s \<Longrightarrow>
   connect orc s w = (r, s', w') \<Longrightarrow>
   get_persistent_session orc m nm w = (if r then Some s' else None, store (upper m) s' w')"
  using connect_connected[of orc s w r s' w']
  by (simp add: get_persistent_session_def)

lemma gps_trace:
  "\<exists>evs. trace (snd (get_persistent_session orc m nm w)) = trace w @ evs \<and>
         (\<forall>ev \<in> set evs. (\<exists>a. ev = New_BleDisplaySession a True 3) \<or> (\<exists>n. ev = Connect n))"
proof (cases "map_of (PERSISTENT_SESSIONS w) (upper m)")
  case None
  show ?thesis
  proof (cases "3 \<le> length (PERSISTENT_SESSIONS w)")
    case True
    then show ?thesis using None by (simp add: gps_full)
  next
    case False
    obtain r s' w' where c: "connect orc (PersistentSession_init (upper m) nm) w = (r, s', w')"
      by (cases "connect orc (PersistentSession_init (upper m) nm) w") auto
    show ?thesis
      using gps_fresh[OF None _ c] False connect_trace[of orc "PersistentSession_init (upper m) nm" w] c
      by simp
  qed
next
  case (Some s)
  show ?thesis
  proof (cases "ps_connected s")
    case True
    then show ?thesis using Some by (simp add: gps_connected)
  next
    case False
    obtain r s' w' where c: "connect orc s w = (r, s', w')"
      by (cases "connect orc s w") auto
    show ?thesis
      using gps_reconnect[OF Some False c] connect_trace[of orc s w] c
      by simp
  qed
qed

lemma gps_result_connected:
  "get_persistent_session orc m nm w = (Some p, w') \<Longrightarrow> ps_connected p"
  by (auto simp: get_persistent_session_def Let_def split: if_splits option.splits prod.splits)


lemma send_frame_trace:
  "\<exists>evs. trace (snd (snd (send_frame orc s png w))) = trace w @ evs \<and>
         (\<forall>ev \<in> set evs. \<exists>n b. ev = Send_png n b)"
  by (auto simp: send_frame_def ext_call_def split: option.splits resp.splits)


subsection \<open>Events of one attempt\<close>

lemma handle_exn_negative:
  "fst (handle_exn c m cb k e w) = Inr (Some (ok, msg)) \<Longrightarrow> \<not> ok"
  by (cases cb; cases e)
     (auto simp: handle_exn_def progress_def ext_call_def split: resp.splits if_splits)

lemma try_outcome_positive:
  "fst (try_outcome c m cb k r w) = Inr (Some (True, msg)) \<Longrightarrow> \<exists>b. r = Inr b"
proof (cases r)
  case (Inl e)
  assume "fst (try_outcome c m cb k r w) = Inr (Some (True, msg))"
  then show ?thesis using Inl handle_exn_negative[of c m cb k e w True msg]
    by (simp add: try_outcome_def)
next
  case (Inr b)
  then show ?thesis by simp
qed

lemma attempt_once_trace:
  assumes "fst (progress cb m ''connecting'' False w) = Inr ()"
  shows "\<exists>evs. (\<forall>sid. Safe_disconnect sid \<notin> set evs) \<and>
     trace (snd (attempt_once c orc m png cb k w)) =
       trace w @ evs @
       (case fst (snd (send_with_session orc m png cb (snd (progress cb m ''connecting'' False w)))) of
          Some sid \<Rightarrow> if use_persistent c then [] else [Safe_disconnect sid]
        | None \<Rightarrow> []) @ [Sleep PanelDelay]"
proof -
  obtain w1 where p: "progress cb m ''connecting'' False w = (Inr (), w1)"
    using assms by (cases "progress cb m ''connecting'' False w") auto
  obtain r session w2 where s: "send_with_session orc m png cb w1 = (r, session, w2)"
    by (cases "send_with_session orc m png cb w1") auto
  have t1: "trace w1 = trace w @ (case cb of None \<Rightarrow> [] | Some f \<Rightarrow> [Progress m ''connecting'' False])"
    using progress_trace[of cb m "''connecting''" False w] p by simp
  obtain evs2 where t2: "trace w2 = trace w1 @ evs2" "\<forall>sid. Safe_disconnect sid \<notin> set evs2"
    using sws_trace[of orc m png cb w1] s by auto
  obtain evs3 where t3: "trace (snd (try_outcome c m cb k r w2)) = trace w2 @ evs3"
      "\<forall>ev \<in> set evs3. \<exists>a b f. ev = Progress a b f"
    using try_outcome_trace[of c m cb k r w2] by blast
  let ?evs = "(case cb of None \<Rightarrow> [] | Some f \<Rightarrow> [Progress m ''connecting'' False]) @ evs2 @ evs3"
  have "\<forall>sid. Safe_disconnect sid \<notin> set ?evs"
    using t2(2) t3(2) by (cases cb) auto
  moreover have "trace (snd (attempt_once c orc m png cb k w)) =
       trace w @ ?evs @
       (case session of
          Some sid \<Rightarrow> if use_persistent c then [] else [Safe_disconnect sid]
        | None \<Rightarrow> []) @ [Sleep PanelDelay]"
    using attempt_once_eq[OF p s, of c k] t1 t2(1) t3(1) by (simp add: cleanup_trace)
  ultimately show ?thesis using p s by (intro exI[of _ ?evs]) simp
qed

lemma attempt_once_settle:
  assumes "fst (attempt_once c orc m png cb k w) = Inr (Some (True, msg))"
  shows "\<exists>pre post sid. trace (snd (attempt_once c orc m png cb k w)) =
           trace w @ pre @ [Send_png sid png, Sleep Settle] @ post @ [Sleep PanelDelay]"
proof -
  obtain q w1 where p0: "progress cb m ''connecting'' False w = (q, w1)"
    by (cases "progress cb m ''connecting'' False w") auto
  have "q = Inr ()"
  proof (cases q)
    case (Inl e)
    then show ?thesis using p0 assms by (simp add: attempt_once_raise)
  next
    case (Inr u)
    then show ?thesis by simp
  qed
  then have p: "progress cb m ''connecting'' False w = (Inr (), w1)" using p0 by simp
  obtain r session w2 where s: "send_with_session orc m png cb w1 = (r, session, w2)"
    by (cases "send_with_session orc m png cb w1") auto
  have a: "attempt_once c orc m png cb k w =
           (fst (try_outcome c m cb k r w2), cleanup c orc session (snd (try_outcome c m cb k r w2)))"
    by (rule attempt_once_eq[OF p s])
  then obtain b where r: "r = Inr b"
    using assms try_outcome_positive[of c m cb k r w2 msg] by auto
  have t1: "trace w1 = trace w @ (case cb of None \<Rightarrow> [] | Some f \<Rightarrow> [Progress m ''connecting'' False])"
    using progress_trace[of cb m "''connecting''" False w] p by simp
  obtain pre where t2: "trace w2 = trace w1 @ pre @ [Send_png (tick w1) png, Sleep Settle]"
    using sws_success[of orc m png cb w1 b] s r by auto
  obtain evs3 where t3: "trace (snd (try_outcome c m cb k r w2)) = trace w2 @ evs3"
    using try_outcome_trace[of c m cb k r w2] by blast
  have "trace (snd (attempt_once c orc m png cb k w)) =
      trace w @ ((case cb of None \<Rightarrow> [] | Some f \<Rightarrow> [Progress m ''connecting'' False]) @ pre)
        @ [Send_png (tick w1) png, Sleep Settle]
        @ (evs3 @ (case session of
          Some sid \<Rightarrow> if use_persistent c then [] else [Safe_disconnect sid]
        | None \<Rightarrow> [])) @ [Sleep PanelDelay]"
    using a t1 t2 t3 by (simp add: cleanup_trace)
  then show ?thesis by blast
qed

subsection \<open>The retry loop\<close>

lemma fresh_connection_pool [simp]:
  "PERSISTENT_SESSIONS (snd (fresh_connection c orc m png cb ks w)) = PERSISTENT_SESSIONS w"
proof (induction ks arbitrary: w)
  case Nil
  show ?case by simp
next
  case (Cons k ks)
  obtain q w' where a: "attempt_once c orc m png cb k w = (q, w')"
    by (cases "attempt_once c orc m png cb k w") auto
  have p: "PERSISTENT_SESSIONS w' = PERSISTENT_SESSIONS w"
    using attempt_once_pool[of c orc m png cb k w] a by simp
  show ?case using a p Cons.IH[of w']
    by (auto split: sum.splits option.splits)
qed

lemma fresh_connection_quiet:
  "cb_quiet cb \<Longrightarrow> \<exists>r. fst (fresh_connection c orc m png cb ks w) = Inr r"
proof (induction ks arbitrary: w)
  case Nil
  show ?case by simp
next
  case (Cons k ks)
  obtain q w' where a: "attempt_once c orc m png cb k w = (q, w')"
    by (cases "attempt_once c orc m png cb k w") auto
  obtain o1 where q: "q = Inr o1"
    using attempt_once_quiet[OF Cons.prems, of c orc m png k w] a by simp
  show ?case using a q Cons.IH[OF Cons.prems, of w']
    by (cases o1) auto
qed

lemma fresh_connection_final:
  "ks \<noteq> [] \<Longrightarrow> last ks = retries c \<Longrightarrow> fst (fresh_connection c orc m png cb ks w) \<noteq> Inr None"
proof (induction ks arbitrary: w)
  case Nil
  then show ?case by simp
next
  case (Cons k ks)
  obtain q w' where a: "attempt_once c orc m png cb k w = (q, w')"
    by (cases "attempt_once c orc m png cb k w") auto
  show ?case
  proof (cases "ks = []")
    case True
    then have "k = retries c" using Cons.prems by simp
    then have "q \<noteq> Inr None" using attempt_once_final[of c orc m png cb w] a by simp
    then show ?thesis using a True by (auto split: sum.splits option.splits)
  next
    case False
    then have "last ks = retries c" using Cons.prems by simp
    then have "fst (fresh_connection c orc m png cb ks w') \<noteq> Inr None"
      using Cons.IH[OF False] by simp
    then show ?thesis using a by (auto split: sum.splits option.splits)
  qed
qed

lemma fresh_connection_paced:
  "cb_quiet cb \<Longrightarrow> ks \<noteq> [] \<Longrightarrow>
   \<exists>evs. trace (snd (fresh_connection c orc m png cb ks w)) = trace w @ evs @ [Sleep PanelDelay]"
proof (induction ks arbitrary: w)
  case Nil
  then show ?case by simp
next
  case (Cons k ks)
  obtain q w' where a: "attempt_once c orc m png cb k w = (q, w')"
    by (cases "attempt_once c orc m png cb k w") auto
  have "fst (progress cb m ''connecting'' False w) = Inr ()"
    using Cons.prems(1) by (rule progress_quiet)
  from attempt_once_trace[OF this, of c orc png k]
  obtain evs where t: "trace w' = trace w @ evs @ [Sleep PanelDelay]"
    using a by (metis append.assoc snd_conv)
  show ?case
  proof (cases "q = Inr None \<and> ks \<noteq> []")
    case True
    then obtain evs' where "trace (snd (fresh_connection c orc m png cb ks w')) = trace w' @ evs' @ [Sleep PanelDelay]"
      using Cons.IH[OF Cons.prems(1), of w'] by blast
    then have "trace (snd (fresh_connection c orc m png cb (k # ks) w)) =
        trace w @ (evs @ [Sleep PanelDelay] @ evs') @ [Sleep PanelDelay]"
      using a True t by simp
    then show ?thesis by blast
  next
    case False
    then have "snd (fresh_connection c orc m png cb (k # ks) w) = w'"
      using a by (cases ks) (auto split: sum.splits option.splits)
    then show ?thesis using t by auto
  qed
qed

lemma upto_last: "i \<le> j \<Longrightarrow> [i..j] \<noteq> [] \<and> last [i..j] = j"
  by (simp add: upto_rec2)

lemma fall_back_snd:
  "snd (fall_back c orc m png cb w) = snd (fresh_connection c orc m png cb [1..retries c] w)"
  by (auto simp: fall_back_def split: prod.splits sum.splits option.splits)

lemma fall_back_pool [simp]:
  "PERSISTENT_SESSIONS (snd (fall_back c orc m png cb w)) = PERSISTENT_SESSIONS w"
  by (simp add: fall_back_snd)

lemma fall_back_quiet:
  "cb_quiet cb \<Longrightarrow> \<exists>out. fst (fall_back c orc m png cb w) = Inr out"
  using fresh_connection_quiet[of cb c orc m png "[1..retries c]" w]
  by (auto simp: fall_back_def split: prod.splits sum.splits option.splits)

lemma fall_back_zero:
  "retries c \<le> 0 \<Longrightarrow> fall_back c orc m png cb w = (Inr (False, ''Max retries exceeded''), w)"
  by (simp add: fall_back_def)

lemma fall_back_paced:
  "cb_quiet cb \<Longrightarrow> 1 \<le> retries c \<Longrightarrow>
   \<exists>evs. trace (snd (fall_back c orc m png cb w)) = trace w @ evs @ [Sleep PanelDelay]"
proof -
  assume q: "cb_quiet cb" and r: "1 \<le> retries c"
  have "[1..retries c] \<noteq> []" using r upto_last by blast
  from fresh_connection_paced[OF q this, of c orc m png w]
  show ?thesis by (simp add: fall_back_snd)
qed

subsection \<open>The attempt over the pooled link\<close>

lemma persistent_path_off:
  "\<not> use_persistent c \<Longrightarrow> persistent_path c orc m png dn cb w = (None, w)"
  by (simp add: persistent_path_def)

lemma persistent_path_miss:
  "get_persistent_session orc m dn w = (None, w1) \<Longrightarrow>
   persistent_path c orc m png dn cb w = (None, if use_persistent c then w1 else w)"
  by (simp add: persistent_path_def)

lemma persistent_path_hit:
  assumes "use_persistent c" "get_persistent_session orc m dn w = (Some p, w1)"
    and "progress cb m ''sending'' False w1 = (q, w2)"
    and "send_frame orc p png w2 = (ok, p', w3)"
    and "progress cb m ''success'' True (store (upper m) p' w3) = (q', w5)"
  shows "persistent_path c orc m png dn cb w =
    (case q of
       Inl e \<Rightarrow> (Some (Inl e), w2)
     | Inr u \<Rightarrow>
         if ok then (case q' of Inl e \<Rightarrow> (Some (Inl e), w5) | Inr u' \<Rightarrow> (Some (Inr (True, ''OK'')), w5))
         else (None, store (upper m) p' w3))"
  using assms gps_result_connected[OF assms(2)]
  by (auto simp: persistent_path_def Let_def split: sum.splits)

lemma persistent_path_trace:
  "\<exists>evs. trace (snd (persistent_path c orc m png dn cb w)) = trace w @ evs \<and>
     (\<forall>ev \<in> set evs. (\<exists>a. ev = New_BleDisplaySession a True 3) \<or> (\<exists>n. ev = Connect n) \<or>
                      (\<exists>n b. ev = Send_png n b) \<or> (\<exists>a b f. ev = Progress a b f))"
proof (cases "use_persistent c")
  case False
  then show ?thesis by (simp add: persistent_path_off)
next
  case True
  obtain po w1 where g: "get_persistent_session orc m dn w = (po, w1)"
    by (cases "get_persistent_session orc m dn w") auto
  obtain e1 where t1: "trace w1 = trace w @ e1"
    "\<forall>ev \<in> set e1. (\<exists>a. ev = New_BleDisplaySession a True 3) \<or> (\<exists>n. ev = Connect n)"
    using gps_trace[of orc m dn w] g by auto
  show ?thesis
  proof (cases po)
    case None
    then show ?thesis using g t1 True by (auto simp: persistent_path_miss)
  next
    case (Some p)
    obtain q w2 where p1: "progress cb m ''sending'' False w1 = (q, w2)"
      by (cases "progress cb m ''sending'' False w1") auto
    obtain ok p' w3 where sf: "send_frame orc p png w2 = (ok, p', w3)"
      by (cases "send_frame orc p png w2") auto
    obtain q' w5 where p2: "progress cb m ''success'' True (store (upper m) p' w3) = (q', w5)"
      by (cases "progress cb m ''success'' True (store (upper m) p' w3)") auto
    have t2: "trace w2 = trace w1 @ (case cb of None \<Rightarrow> [] | Some f \<Rightarrow> [Progress m ''sending'' False])"
      using progress_trace[of cb m "''sending''" False w1] p1 by simp
    obtain e3 where t3: "trace w3 = trace w2 @ e3" "\<forall>ev \<in> set e3. \<exists>n b. ev = Send_png n b"
      using send_frame_trace[of orc p png w2] sf by auto
    have t5: "trace w5 = trace w3 @ (case cb of None \<Rightarrow> [] | Some f \<Rightarrow> [Progress m ''success'' True])"
      using progress_trace[of cb m "''success''" True "store (upper m) p' w3"] p2 by simp
    have h: "persistent_path c orc m png dn cb w =
      (case q of
         Inl e \<Rightarrow> (Some (Inl e), w2)
       | Inr u \<Rightarrow>
           if ok then (case q' of Inl e \<Rightarrow> (Some (Inl e), w5) | Inr u' \<Rightarrow> (Some (Inr (True, ''OK'')), w5))
           else (None, store (upper m) p' w3))"
      using persistent_path_hit[OF True _ p1 sf p2] g Some by simp
    let ?P = "\<lambda>ev. (\<exists>a. ev = New_BleDisplaySession a True 3) \<or> (\<exists>n. ev = Connect n) \<or>
                      (\<exists>n b. ev = Send_png n b) \<or> (\<exists>a b f. ev = Progress a b f)"
    let ?c1 = "case cb of None \<Rightarrow> [] | Some f \<Rightarrow> [Progress m ''sending'' False]"
    let ?c2 = "case cb of None \<Rightarrow> [] | Some f \<Rightarrow> [Progress m ''success'' True]"
    have c1: "\<forall>ev \<in> set ?c1. ?P ev" by (cases cb) auto
    have c2: "\<forall>ev \<in> set ?c2. ?P ev" by (cases cb) auto
    have a1: "\<forall>ev \<in> set e1. ?P ev" using t1(2) by blast
    have a3: "\<forall>ev \<in> set e3. ?P ev" using t3(2) by blast
    have r2: "trace w2 = trace w @ (e1 @ ?c1) \<and> (\<forall>ev \<in> set (e1 @ ?c1). ?P ev)"
      using t1(1) t2 a1 c1 by (simp add: ball_Un)
    have r3: "trace (store (upper m) p' w3) = trace w @ (e1 @ ?c1 @ e3) \<and>
              (\<forall>ev \<in> set (e1 @ ?c1 @ e3). ?P ev)"
      using t1(1) t2 t3(1) a1 c1 a3 by (simp add: ball_Un)
    have r5: "trace w5 = trace w @ (e1 @ ?c1 @ e3 @ ?c2) \<and>
              (\<forall>ev \<in> set (e1 @ ?c1 @ e3 @ ?c2). ?P ev)"
      using t1(1) t2 t3(1) t5 a1 c1 a3 c2 by (simp add: ball_Un)
    have "snd (persistent_path c orc m png dn cb w) = w2 \<or>
          snd (persistent_path c orc m png dn cb w) = w5 \<or>
          snd (persistent_path c orc m png dn cb w) = store (upper m) p' w3"
      by (cases q; cases q'; cases ok) (simp_all add: h)
    then consider "snd (persistent_path c orc m png dn cb w) = w2"
      | "snd (persistent_path c orc m png dn cb w) = w5"
      | "snd (persistent_path c orc m png dn cb w) = store (upper m) p' w3"
      by blast
    then show ?thesis
    proof cases
      case 1
      then show ?thesis using r2 by metis
    next
      case 2
      then show ?thesis using r5 by metis
    next
      case 3
      then show ?thesis using r3 by metis
    qed
  qed
qed

lemma persistent_path_quiet:
  assumes "cb_quiet cb"
  shows "fst (persistent_path c orc m png dn cb w) = None \<or>
         fst (persistent_path c orc m png dn cb w) = Some (Inr (True, ''OK''))"
proof (cases "use_persistent c")
  case False
  then show ?thesis by (simp add: persistent_path_off)
next
  case True
  obtain po w1 where g: "get_persistent_session orc m dn w = (po, w1)"
    by (cases "get_persistent_session orc m dn w") auto
  show ?thesis
  proof (cases po)
    case None
    then show ?thesis using g by (simp add: persistent_path_miss)
  next
    case (Some p)
    obtain w2 where p1: "progress cb m ''sending'' False w1 = (Inr (), w2)"
      using progress_quiet[OF assms, of m "''sending''" False w1]
      by (cases "progress cb m ''sending'' False w1") auto
    obtain ok p' w3 where sf: "send_frame orc p png w2 = (ok, p', w3)"
      by (cases "send_frame orc p png w2") auto
    obtain w5 where p2: "progress cb m ''success'' True (store (upper m) p' w3) = (Inr (), w5)"
      using progress_quiet[OF assms, of m "''success''" True "store (upper m) p' w3"]
      by (cases "progress cb m ''success'' True (store (upper m) p' w3)") auto
    show ?thesis
      using persistent_path_hit[OF True _ p1 sf p2] g Some by simp
  qed
qed



subsection \<open>A single send and the fan-out\<close>

lemma send_to_panel_quiet:
  assumes "cb_quiet cb"
  shows "\<exists>out. fst (send_to_panel c orc m png nm cb w) = Inr out"
proof -
  let ?dn = "case nm of None \<Rightarrow> m | Some n \<Rightarrow> py_or n m"
  obtain r w1 where p: "persistent_path c orc m png ?dn cb w = (r, w1)"
    by (cases "persistent_path c orc m png ?dn cb w") auto
  have "r = None \<or> r = Some (Inr (True, ''OK''))"
    using persistent_path_quiet[OF assms, of c orc m png ?dn w] p by simp
  then show ?thesis
  proof
    assume "r = None"
    then show ?thesis using p fall_back_quiet[OF assms, of c orc m png w1]
      by (simp add: send_to_panel_def)
  next
    assume "r = Some (Inr (True, ''OK''))"
    then have "fst (send_to_panel c orc m png nm cb w) = Inr (True, ''OK'')"
      using p by (simp add: send_to_panel_def)
    then show ?thesis by (rule exI)
  qed
qed



lemma send_to_multiple_loop_result:
  "fst (send_to_multiple_loop c orc cb acc panels w) = Inr res \<Longrightarrow>
   \<exists>outs. res = acc @ outs \<and> map fst outs = map fst panels"
proof (induction panels arbitrary: acc w)
  case Nil
  then show ?case by simp
next
  case (Cons p panels)
  obtain m nm png where p: "p = (m, nm, png)" by (cases p) auto
  obtain r w' where s: "send_to_panel c orc m png (Some nm) cb w = (r, w')"
    by (cases "send_to_panel c orc m png (Some nm) cb w") auto
  show ?case
  proof (cases r)
    case (Inl e)
    then show ?thesis using Cons.prems p s by simp
  next
    case (Inr out)
    obtain ok msg where out: "out = (ok, msg)" by (cases out)
    have "fst (send_to_multiple_loop c orc cb (acc @ [(m, ok, msg)]) panels w') = Inr res"
      using Cons.prems p s Inr out by simp
    from Cons.IH[OF this] obtain outs where "res = (acc @ [(m, ok, msg)]) @ outs"
      "map fst outs = map fst panels" by blast
    then have "res = acc @ ((m, ok, msg) # outs) \<and> map fst ((m, ok, msg) # outs) = map fst (p # panels)"
      using p by simp
    then show ?thesis by blast
  qed
qed

lemma send_to_multiple_loop_quiet:
  "cb_quiet cb \<Longrightarrow> \<exists>res. fst (send_to_multiple_loop c orc cb acc panels w) = Inr res"
proof (induction panels arbitrary: acc w)
  case Nil
  show ?case by simp
next
  case (Cons p panels)
  obtain m nm png where p: "p = (m, nm, png)" by (cases p) auto
  obtain out where "fst (send_to_panel c orc m png (Some nm) cb w) = Inr out"
    using send_to_panel_quiet[OF Cons.prems] by blast
  then obtain w' where s: "send_to_panel c orc m png (Some nm) cb w = (Inr out, w')"
    by (cases "send_to_panel c orc m png (Some nm) cb w") auto
  obtain ok msg where out: "out = (ok, msg)" by (cases out)
  show ?case
    using Cons.IH[OF Cons.prems, of "acc @ [(m, ok, msg)]" w'] p s out by simp
qed


lemma same_to_all_addresses: "map fst (map (\<lambda>(m, nm). (m, nm, png)) macs) = map fst macs"
  by (induction macs) auto

subsection \<open>Small facts\<close>

lemma new_events_eq: "trace w' = trace w @ evs \<Longrightarrow> new_events w w' = evs"
  by (simp add: new_events_def)

lemma upto_step: "k \<le> R \<Longrightarrow> [k..R] = k # [k + 1..R]"
  by (simp add: upto_rec1)

lemma upper_char_idem: "upper_char (upper_char ch) = upper_char ch"
  unfolding upper_char_def Let_def
  by (auto simp: of_char_of [where ?'a = nat])

lemma upper_idem: "upper (upper s) = upper s"
  by (simp add: upper_def upper_char_idem)

lemma gps_upper: "get_persistent_session orc (upper m) nm w = get_persistent_session orc m nm w"
  by (simp add: get_persistent_session_def upper_idem)

lemma gps_keys:
  "set (map fst (PERSISTENT_SESSIONS (snd (get_persistent_session orc m nm w))))
     \<subseteq> insert (upper m) (set (map fst (PERSISTENT_SESSIONS w)))"
proof (cases "map_of (PERSISTENT_SESSIONS w) (upper m)")
  case None
  show ?thesis
  proof (cases "3 \<le> length (PERSISTENT_SESSIONS w)")
    case True
    then show ?thesis using None by (auto simp: gps_full)
  next
    case False
    obtain r s' w' where c: "connect orc (PersistentSession_init (upper m) nm) w = (r, s', w')"
      by (cases "connect orc (PersistentSession_init (upper m) nm) w") auto
    show ?thesis using gps_fresh[OF None _ c] False by auto
  qed
next
  case (Some s)
  show ?thesis using gps_present[OF Some, of orc nm] by auto
qed

lemma connect_fresh:
  "\<not> ps_connected s \<Longrightarrow>
   fst (connect orc s w) = (orc (tick w) = Ok \<and> orc (Suc (tick w)) = Ok)"
  by (auto simp: connect_def ext_call_def Let_def split: resp.splits)

subsection \<open>The fan-out, target by target\<close>

lemma loop_acc:
  "send_to_multiple_loop c orc cb acc ps w =
     (case send_to_multiple_loop c orc cb [] ps w of
        (Inl e, w') \<Rightarrow> (Inl e, w')
      | (Inr res, w') \<Rightarrow> (Inr (acc @ res), w'))"
proof (induction ps arbitrary: acc w)
  case Nil
  show ?case by simp
next
  case (Cons p ps)
  obtain m nm png where p: "p = (m, nm, png)" by (cases p) auto
  obtain r w' where s: "send_to_panel c orc m png (Some nm) cb w = (r, w')"
    by (cases "send_to_panel c orc m png (Some nm) cb w") auto
  show ?case
  proof (cases r)
    case (Inl e)
    then show ?thesis using p s by simp
  next
    case (Inr out)
    obtain ok msg where out: "out = (ok, msg)" by (cases out)
    have l: "send_to_multiple_loop c orc cb acc (p # ps) w =
             send_to_multiple_loop c orc cb (acc @ [(m, ok, msg)]) ps w'"
      using p s Inr out by simp
    have r: "send_to_multiple_loop c orc cb [] (p # ps) w =
             send_to_multiple_loop c orc cb [(m, ok, msg)] ps w'"
      using p s Inr out by simp
    show ?thesis
      unfolding l r
      by (subst Cons.IH[of "acc @ [(m, ok, msg)]" w'], subst Cons.IH[of "[(m, ok, msg)]" w'])
         (simp split: prod.splits sum.splits)
  qed
qed

lemma loop_append:
  "send_to_multiple_loop c orc cb acc (xs @ ys) w =
     (case send_to_multiple_loop c orc cb acc xs w of
        (Inl e, w') \<Rightarrow> (Inl e, w')
      | (Inr res, w') \<Rightarrow> send_to_multiple_loop c orc cb res ys w')"
proof (induction xs arbitrary: acc w)
  case Nil
  show ?case by simp
next
  case (Cons p xs)
  obtain m nm png where p: "p = (m, nm, png)" by (cases p) auto
  obtain r w' where s: "send_to_panel c orc m png (Some nm) cb w = (r, w')"
    by (cases "send_to_panel c orc m png (Some nm) cb w") auto
  show ?case
  proof (cases r)
    case (Inl e)
    then show ?thesis using p s by simp
  next
    case (Inr out)
    obtain ok msg where out: "out = (ok, msg)" by (cases out)
    show ?thesis using p s Inr out Cons.IH[of "acc @ [(m, ok, msg)]" w'] by simp
  qed
qed

lemma fan_out_each:
  assumes q: "cb_quiet cb" and i: "i < length panels"
    and o: "fst (send_to_multiple c orc panels cb w) = Inr outs"
    and x: "panels ! i = (m, nm, png)"
  shows "fst (send_to_panel c orc m png (Some nm) cb (snd (send_to_multiple c orc (take i panels) cb w)))
           = Inr (snd (outs ! i)) \<and> fst (outs ! i) = m"
proof -
  let ?pre = "take i panels" and ?post = "drop (Suc i) panels"
  have split: "panels = ?pre @ (m, nm, png) # ?post"
    using id_take_nth_drop[OF i] x by simp
  obtain res where r0: "fst (send_to_multiple_loop c orc cb [] ?pre w) = Inr res"
    using send_to_multiple_loop_quiet[OF q] by blast
  then obtain wi where r: "send_to_multiple_loop c orc cb [] ?pre w = (Inr res, wi)"
    by (cases "send_to_multiple_loop c orc cb [] ?pre w") auto
  have "map fst res = map fst ?pre"
    using send_to_multiple_loop_result[OF r0] by simp
  then have "length res = length ?pre" by (rule map_eq_imp_length_eq)
  then have len: "length res = i" using i by simp
  obtain out where "fst (send_to_panel c orc m png (Some nm) cb wi) = Inr out"
    using send_to_panel_quiet[OF q] by blast
  then obtain w' where s: "send_to_panel c orc m png (Some nm) cb wi = (Inr out, w')"
    by (cases "send_to_panel c orc m png (Some nm) cb wi") auto
  obtain ok msg where out: "out = (ok, msg)" by (cases out)
  have "send_to_multiple_loop c orc cb [] panels w =
        send_to_multiple_loop c orc cb res ((m, nm, png) # ?post) wi"
    by (subst split, subst loop_append) (simp add: r)
  also have "\<dots> = send_to_multiple_loop c orc cb (res @ [(m, ok, msg)]) ?post w'"
    using s out by simp
  finally have e: "send_to_multiple_loop c orc cb [] panels w =
        send_to_multiple_loop c orc cb (res @ [(m, ok, msg)]) ?post w'" .
  have "fst (send_to_multiple_loop c orc cb (res @ [(m, ok, msg)]) ?post w') = Inr outs"
    using o e by (simp add: send_to_multiple_def)
  from send_to_multiple_loop_result[OF this]
  obtain more where "outs = (res @ [(m, ok, msg)]) @ more" by blast
  then have "outs ! i = (m, ok, msg)" using len by (simp add: nth_append)
  then show ?thesis using r s out by (simp add: send_to_multiple_def)
qed

subsection \<open>The first outside calls of the loop\<close>


lemma progress_tick:
  "tick (snd (progress cb m st fin w)) = tick w + (case cb of None \<Rightarrow> 0 | Some f \<Rightarrow> 1)"
  by (auto simp: progress_def ext_call_def split: option.splits resp.splits)






section \<open>The claims\<close>

text \<open>
  C1. When the progress callback is absent or returns from every call,
  \<open>send_to_multiple\<close> returns one outcome per target, in the order of the targets, each
  carrying the address of its target as it was given. Every target is sent to, whatever
  happened to the targets before it: the outcome at position \<open>i\<close> is the result of
  \<open>send_to_panel\<close> for target \<open>i\<close>, called in the world that the fan-out over the first
  \<open>i\<close> targets left. \<open>send_same_to_all\<close> hands the same work to \<open>send_to_multiple\<close> and
  has the same property. The witness is scenario B of the specification: the second of
  three targets fails both attempts, and the third is still sent to and succeeds.
\<close>

theorem fan_out_order:
  assumes "cb_quiet cb"
  shows "(\<exists>outs. fst (send_to_multiple c orc panels cb w) = Inr outs \<and>
            length outs = length panels \<and> map fst outs = map fst panels \<and>
            (\<forall>i < length panels. case panels ! i of (m, nm, png) \<Rightarrow>
               fst (send_to_panel c orc m png (Some nm) cb
                      (snd (send_to_multiple c orc (take i panels) cb w))) = Inr (snd (outs ! i)))) \<and>
         (\<exists>outs. fst (send_same_to_all c orc macs png0 cb w) = Inr outs \<and>
            length outs = length macs \<and> map fst outs = map fst macs \<and>
            (\<forall>i < length macs. case macs ! i of (m, nm) \<Rightarrow>
               fst (send_to_panel c orc m png0 (Some nm) cb
                      (snd (send_same_to_all c orc (take i macs) png0 cb w))) = Inr (snd (outs ! i))))"
proof -
  have a: "\<exists>outs. fst (send_to_multiple c orc ps cb w) = Inr outs \<and>
            length outs = length ps \<and> map fst outs = map fst ps \<and>
            (\<forall>i < length ps. case ps ! i of (m, nm, png) \<Rightarrow>
               fst (send_to_panel c orc m png (Some nm) cb
                      (snd (send_to_multiple c orc (take i ps) cb w))) = Inr (snd (outs ! i)))" for ps
  proof -
    obtain res where r: "fst (send_to_multiple_loop c orc cb [] ps w) = Inr res"
      using send_to_multiple_loop_quiet[OF assms] by blast
    then have r': "fst (send_to_multiple c orc ps cb w) = Inr res"
      by (simp add: send_to_multiple_def)
    from send_to_multiple_loop_result[OF r] have m: "map fst res = map fst ps" by simp
    have l: "length res = length ps" using map_eq_imp_length_eq[OF m] .
    have e: "case ps ! i of (m, nm, png) \<Rightarrow>
               fst (send_to_panel c orc m png (Some nm) cb
                      (snd (send_to_multiple c orc (take i ps) cb w))) = Inr (snd (res ! i))"
      if "i < length ps" for i
    proof -
      obtain m nm png where x: "ps ! i = (m, nm, png)" by (cases "ps ! i") auto
      show ?thesis using fan_out_each[OF assms that r' x] x by simp
    qed
    show ?thesis using r' l m e by blast
  qed
  let ?f = "\<lambda>(m, nm). (m, nm, png0)"
  obtain outs where o: "fst (send_to_multiple c orc (map ?f macs) cb w) = Inr outs"
    "length outs = length (map ?f macs)" "map fst outs = map fst (map ?f macs)"
    and e: "\<forall>i < length (map ?f macs). case (map ?f macs) ! i of (m, nm, png) \<Rightarrow>
               fst (send_to_panel c orc m png (Some nm) cb
                      (snd (send_to_multiple c orc (take i (map ?f macs)) cb w))) = Inr (snd (outs ! i))"
    using a[of "map ?f macs"] by blast
  have e': "case macs ! i of (m, nm) \<Rightarrow>
               fst (send_to_panel c orc m png0 (Some nm) cb
                      (snd (send_same_to_all c orc (take i macs) png0 cb w))) = Inr (snd (outs ! i))"
    if "i < length macs" for i
  proof -
    obtain m nm where x: "macs ! i = (m, nm)" by (cases "macs ! i") auto
    have "(map ?f macs) ! i = (m, nm, png0)" using that x by simp
    then show ?thesis
      using e that x by (auto simp: send_same_to_all_def take_map)
  qed
  have "fst (send_same_to_all c orc macs png0 cb w) = Inr outs \<and>
            length outs = length macs \<and> map fst outs = map fst macs"
    using o same_to_all_addresses[of png0 macs] by (simp add: send_same_to_all_def)
  then show ?thesis using a[of panels] e' by blast
qed

theorem fan_out_order_witness:
  "cb_quiet None \<and> 2 < length three_panels \<and>
   fst (send_to_multiple \<lparr>retries = 2, use_persistent = False\<rparr> scenario_b three_panels None initial_world)
     = Inr [(''AA:01'', True, ''OK''), (''AA:02'', False, ''unreachable''), (''AA:03'', True, ''OK'')] \<and>
   fst (send_to_panel \<lparr>retries = 2, use_persistent = False\<rparr> scenario_b ''AA:03'' [] (Some ''right'') None
          (snd (send_to_multiple \<lparr>retries = 2, use_persistent = False\<rparr> scenario_b (take 2 three_panels) None initial_world)))
     = Inr (True, ''OK'')"
proof -
  have h: "cb_quiet None" by (simp add: cb_quiet_def)
  have l: "2 < length three_panels" by (simp add: three_panels_def)
  have n: "three_panels ! 2 = (''AA:03'', ''right'', [])" by (simp add: three_panels_def)
  have v: "fst (send_to_multiple \<lparr>retries = 2, use_persistent = False\<rparr> scenario_b three_panels None initial_world)
     = Inr [(''AA:01'', True, ''OK''), (''AA:02'', False, ''unreachable''), (''AA:03'', True, ''OK'')]"
    by code_simp
  obtain outs where o: "fst (send_to_multiple \<lparr>retries = 2, use_persistent = False\<rparr> scenario_b three_panels None initial_world) = Inr outs"
    and e: "\<forall>i < length three_panels. case three_panels ! i of (m, nm, png) \<Rightarrow>
               fst (send_to_panel \<lparr>retries = 2, use_persistent = False\<rparr> scenario_b m png (Some nm) None
                      (snd (send_to_multiple \<lparr>retries = 2, use_persistent = False\<rparr> scenario_b (take i three_panels) None initial_world)))
                 = Inr (snd (outs ! i))"
    using fan_out_order[OF h, THEN conjunct1, of "\<lparr>retries = 2, use_persistent = False\<rparr>" scenario_b three_panels initial_world]
    by blast
  have "outs = [(''AA:01'', True, ''OK''), (''AA:02'', False, ''unreachable''), (''AA:03'', True, ''OK'')]"
    using o v by simp
  then have "snd (outs ! 2) = (True, ''OK'')" by simp
  then show ?thesis using e l n h v by auto
qed

text \<open>
  C1 as stated does not hold for every call: the loop of \<open>send_to_multiple\<close> has no
  handler, so an exception that \<open>send_to_panel\<close> lets through (one raised by the progress
  callback at the \<open>"connecting"\<close> report) ends the fan-out at the first target, and no
  list of outcomes is returned.
\<close>

theorem fan_out_callback_counterexample:
  "fst (send_to_multiple \<lparr>retries = 1, use_persistent = False\<rparr> all_ok
          [(''AA:01'', ''left'', []), (''AA:02'', ''right'', [])] (Some always_raises) initial_world)
     = Inl (Exception ''boom'')"
  by code_simp




text \<open>
  C3. With a progress callback that is absent or returns from every call, the loop over
  the attempts \<open>k = 1..retries\<close> follows the retry rule of the specification
  (\<open>attempt_outcome\<close>): a successful attempt returns \<open>(True, "OK")\<close>; an expired deadline
  returns \<open>(False, "Connection timeout")\<close> on the last attempt and goes on to attempt
  \<open>k + 1\<close> otherwise; any other failure returns \<open>(False, text)\<close> on the last attempt, where
  \<open>text\<close> is the text of the exception, whatever it is, and goes on to attempt \<open>k + 1\<close>
  otherwise. When an attempt returns, the world is the one that attempt left: nothing is
  tried after it.
\<close>

theorem retry_loop_rule:
  assumes "cb_quiet cb" "1 \<le> k" "k \<le> retries c"
  shows "fresh_connection c orc m png cb [k..retries c] w =
     (case attempt_outcome (retries c) k (attempt_result orc m png cb w) of
        Some out \<Rightarrow> (Inr (Some out), snd (attempt_once c orc m png cb k w))
      | None \<Rightarrow> fresh_connection c orc m png cb [k + 1..retries c]
                  (snd (attempt_once c orc m png cb k w)))"
proof -
  obtain q w' where a: "attempt_once c orc m png cb k w = (q, w')"
    by (cases "attempt_once c orc m png cb k w") auto
  have q: "q = Inr (attempt_outcome (retries c) k (attempt_result orc m png cb w))"
    using attempt_once_quiet[OF assms(1), of c orc m png k w] a
    by (simp add: attempt_result_def)
  show ?thesis
    unfolding upto_step[OF assms(3)] using a q
    by (simp split: option.splits)
qed

theorem retry_loop_rule_witness:
  "cb_quiet None \<and> (1::int) \<le> 1 \<and> 1 \<le> retries \<lparr>retries = 2, use_persistent = False\<rparr> \<and>
   attempt_outcome 2 1 (attempt_result timeout_then_ok ''AA:01'' [] None initial_world) = None \<and>
   fst (fresh_connection \<lparr>retries = 2, use_persistent = False\<rparr> timeout_then_ok ''AA:01'' [] None [1..2] initial_world)
     = Inr (Some (True, ''OK''))"
proof -
  have h1: "cb_quiet None" by (simp add: cb_quiet_def)
  have h2: "(1::int) \<le> 1" by simp
  have h3: "1 \<le> retries \<lparr>retries = 2, use_persistent = False\<rparr>" by simp
  have e: "attempt_outcome 2 1 (attempt_result timeout_then_ok ''AA:01'' [] None initial_world) = None"
    by code_simp
  have f: "fst (fresh_connection \<lparr>retries = 2, use_persistent = False\<rparr> timeout_then_ok ''AA:01'' [] None [1 + 1..2]
             (snd (attempt_once \<lparr>retries = 2, use_persistent = False\<rparr> timeout_then_ok ''AA:01'' [] None 1 initial_world)))
           = Inr (Some (True, ''OK''))"
    by code_simp
  show ?thesis
    using retry_loop_rule[OF h1 h2 h3, of timeout_then_ok "''AA:01''" "[]" initial_world] h1 e f
    by simp
qed

text \<open>
  C3 as stated fails in two places. The message of a failed last attempt is the text of the
  exception, and an exception with an empty text gives an empty message. And an exception
  of the \<open>"success"\<close> report is raised inside the \<open>try\<close>: the attempt that sent the image
  is then treated as a failed one, here the last, and the call returns a negative outcome.
\<close>

theorem retry_loop_empty_message_counterexample:
  "fst (send_to_panel \<lparr>retries = 1, use_persistent = False\<rparr>
          (\<lambda>n. if n = 1 then Fail (Exception []) else Ok) ''AA:01'' [] None None initial_world)
     = Inr (False, []) \<and>
   fst (send_to_panel \<lparr>retries = 1, use_persistent = False\<rparr> all_ok ''AA:01'' [] None
          (Some (\<lambda>n. if n = 6 then Fail (Exception ''boom'') else Ok)) initial_world)
     = Inr (False, ''boom'')"
  by code_simp

text \<open>
  C4. For every attempt that enters its \<open>try\<close>, the session of the attempt is the one
  made by the first outside call of the \<open>try\<close>, if the constructor returned. With
  \<open>use_persistent\<close> off, the attempt, whatever its result (success, expired deadline, other
  failure, an exception of a report), calls \<open>_safe_disconnect\<close> on that session exactly
  once, right before the pause \<open>panel_delay\<close> that ends the attempt, and ignores what the
  call answers; when the constructor raised there is no session and no such call. With
  \<open>use_persistent\<close> on, the attempt calls \<open>_safe_disconnect\<close> on no session.
\<close>

theorem ephemeral_close_rule:
  assumes "entered_try cb m w"
  shows "attempt_session orc m png cb w =
           (if orc (tick (snd (progress cb m ''connecting'' False w))) = Ok
            then Some (tick (snd (progress cb m ''connecting'' False w))) else None) \<and>
         (\<exists>evs. (\<forall>sid. Safe_disconnect sid \<notin> set evs) \<and>
            new_events w (snd (attempt_once c orc m png cb k w)) =
              evs @ (case attempt_session orc m png cb w of
                       Some sid \<Rightarrow> if use_persistent c then [] else [Safe_disconnect sid]
                     | None \<Rightarrow> []) @ [Sleep PanelDelay])"
proof -
  have e: "fst (progress cb m ''connecting'' False w) = Inr ()"
    using assms by (simp add: entered_try_def)
  obtain evs where n: "\<forall>sid. Safe_disconnect sid \<notin> set evs"
    and t: "trace (snd (attempt_once c orc m png cb k w)) =
       trace w @ evs @
       (case attempt_session orc m png cb w of
          Some sid \<Rightarrow> if use_persistent c then [] else [Safe_disconnect sid]
        | None \<Rightarrow> []) @ [Sleep PanelDelay]"
    using attempt_once_trace[OF e, of c orc png k] unfolding attempt_session_def by blast
  have "new_events w (snd (attempt_once c orc m png cb k w)) =
      evs @ (case attempt_session orc m png cb w of
          Some sid \<Rightarrow> if use_persistent c then [] else [Safe_disconnect sid]
        | None \<Rightarrow> []) @ [Sleep PanelDelay]"
    by (rule new_events_eq[OF t])
  then show ?thesis using n by (auto simp: attempt_session_def sws_session)
qed

theorem ephemeral_close_rule_witness:
  "entered_try None ''AA:01'' initial_world \<and>
   attempt_session timeout_then_ok ''AA:01'' [] None initial_world = Some 0 \<and>
   (\<exists>evs. (\<forall>sid. Safe_disconnect sid \<notin> set evs) \<and>
      new_events initial_world
        (snd (attempt_once \<lparr>retries = 2, use_persistent = False\<rparr> timeout_then_ok ''AA:01'' [] None 1 initial_world))
      = evs @ [Safe_disconnect 0] @ [Sleep PanelDelay])"
proof -
  have h: "entered_try None ''AA:01'' initial_world"
    by (simp add: entered_try_def progress_def)
  have s: "attempt_session timeout_then_ok ''AA:01'' [] None initial_world = Some 0"
    by code_simp
  show ?thesis
    using ephemeral_close_rule[OF h, of timeout_then_ok "[]" "\<lparr>retries = 2, use_persistent = False\<rparr>" 1] h s
    by simp
qed

text \<open>
  C4 as stated fails under the default \<open>use_persistent = True\<close>: the \<open>finally\<close> clause
  disconnects only \<open>if session and not self.use_persistent\<close>. Here the pooled link cannot
  connect, the fresh session number 2 is made, the deadline expires during its
  \<open>_connect\<close>, and the call returns without any \<open>_safe_disconnect\<close>.
\<close>

theorem ephemeral_close_counterexample:
  "fst (send_to_panel \<lparr>retries = 1, use_persistent = True\<rparr> pool_down_deadline ''AA:01'' [] None None initial_world)
     = Inr (False, ''Connection timeout'') \<and>
   trace (snd (send_to_panel \<lparr>retries = 1, use_persistent = True\<rparr> pool_down_deadline ''AA:01'' [] None None initial_world))
     = [New_BleDisplaySession ''AA:01'' True 3, Connect 0,
        New_BleDisplaySession ''AA:01'' False 1, Connect 2, Sleep PanelDelay]"
  by code_simp




text \<open>
  C6. For an address with no entry, in a pool of fewer than three entries,
  \<open>get_persistent_session\<close> makes a new link, puts it into the pool under the normalised
  address and then connects it. It returns the link exactly when the constructor and
  \<open>_connect\<close> both returned; in either case the pool afterwards is the old pool followed
  by the new entry, whose \<open>connected\<close> flag tells whether the connect succeeded.
\<close>

theorem acquire_new_link:
  assumes "map_of (PERSISTENT_SESSIONS w) (upper m) = None" "length (PERSISTENT_SESSIONS w) < 3"
  shows "(case connect orc (PersistentSession_init (upper m) nm) w of
            (r, s', w') \<Rightarrow>
              get_persistent_session orc m nm w =
                (if r then Some s' else None,
                 w'\<lparr>PERSISTENT_SESSIONS := PERSISTENT_SESSIONS w @ [(upper m, s')]\<rparr>) \<and>
              ps_connected s' = r \<and>
              r = (orc (tick w) = Ok \<and> orc (Suc (tick w)) = Ok))"
proof -
  obtain r s' w' where c: "connect orc (PersistentSession_init (upper m) nm) w = (r, s', w')"
    by (cases "connect orc (PersistentSession_init (upper m) nm) w") auto
  have n: "\<not> ps_connected (PersistentSession_init (upper m) nm)"
    by (simp add: PersistentSession_init_def)
  show ?thesis
    using gps_fresh[OF assms c] connect_connected[OF c] connect_fresh[OF n, of orc w] c
    by simp
qed

theorem acquire_new_link_witness:
  "map_of (PERSISTENT_SESSIONS initial_world) (upper ''aa:01'') = None \<and>
   length (PERSISTENT_SESSIONS initial_world) < 3 \<and>
   get_persistent_session all_ok ''aa:01'' ''left'' initial_world =
     (Some \<lparr>ps_mac = ''AA:01'', ps_name = ''left'', ps_session = Some 0, ps_connected = True\<rparr>,
      \<lparr>PERSISTENT_SESSIONS =
         [(''AA:01'', \<lparr>ps_mac = ''AA:01'', ps_name = ''left'', ps_session = Some 0, ps_connected = True\<rparr>)],
       trace = [New_BleDisplaySession ''AA:01'' True 3, Connect 0], tick = 2\<rparr>)"
proof -
  have h1: "map_of (PERSISTENT_SESSIONS initial_world) (upper ''aa:01'') = None"
    by (simp add: initial_world_def)
  have h2: "length (PERSISTENT_SESSIONS initial_world) < 3"
    by (simp add: initial_world_def)
  have u: "upper ''aa:01'' = ''AA:01''" by code_simp
  have c: "connect all_ok (PersistentSession_init ''AA:01'' ''left'') initial_world =
     (True, \<lparr>ps_mac = ''AA:01'', ps_name = ''left'', ps_session = Some 0, ps_connected = True\<rparr>,
      \<lparr>PERSISTENT_SESSIONS = [], trace = [New_BleDisplaySession ''AA:01'' True 3, Connect 0], tick = 2\<rparr>)"
    by (simp add: connect_def ext_call_def all_ok_def initial_world_def PersistentSession_init_def py_or_def)
  show ?thesis
    using acquire_new_link[OF h1 h2, of all_ok "''left''"] h1 h2 c
    by (simp add: u initial_world_def)
qed

text \<open>
  C6 as stated fails on a failed connect: the entry is stored before \<open>connect\<close> is called
  and is not taken out again, so the pool grows by a disconnected link.
\<close>

theorem acquire_failed_connect_counterexample:
  "fst (get_persistent_session (\<lambda>n. if n = 1 then Fail (Exception ''unreachable'') else Ok)
          ''aa:01'' ''left'' initial_world) = None \<and>
   PERSISTENT_SESSIONS (snd (get_persistent_session (\<lambda>n. if n = 1 then Fail (Exception ''unreachable'') else Ok)
          ''aa:01'' ''left'' initial_world))
     = [(''AA:01'', \<lparr>ps_mac = ''AA:01'', ps_name = ''left'', ps_session = Some 0, ps_connected = False\<rparr>)]"
  by code_simp

text \<open>
  C7. Every attempt over a fresh connection that enters its \<open>try\<close> ends with the pause
  \<open>panel_delay\<close>, whatever its result; a successful one has the settle pause right after
  \<open>send_png\<close>; and with a callback that raises nothing and at least one attempt, the pause
  \<open>panel_delay\<close> is the last thing the loop does before \<open>send_to_panel\<close> returns. The
  attempt over the pooled link makes no pause at all.
\<close>

theorem pacing_rule:
  "(entered_try cb m w \<longrightarrow>
      (\<exists>evs. new_events w (snd (attempt_once c orc m png cb k w)) = evs @ [Sleep PanelDelay])) \<and>
   (fst (attempt_once c orc m png cb k w) = Inr (Some (True, msg)) \<longrightarrow>
      (\<exists>pre post sid. new_events w (snd (attempt_once c orc m png cb k w)) =
           pre @ [Send_png sid png, Sleep Settle] @ post @ [Sleep PanelDelay])) \<and>
   (cb_quiet cb \<and> 1 \<le> retries c \<longrightarrow>
      (\<exists>evs. new_events w (snd (fall_back c orc m png cb w)) = evs @ [Sleep PanelDelay])) \<and>
   (\<forall>p. Sleep p \<notin> set (new_events w (snd (persistent_path c orc m png dn cb w))))"
proof -
  have a: "\<exists>evs. new_events w (snd (attempt_once c orc m png cb k w)) = evs @ [Sleep PanelDelay]"
    if "entered_try cb m w"
  proof -
    have e: "fst (progress cb m ''connecting'' False w) = Inr ()"
      using that by (simp add: entered_try_def)
    from attempt_once_trace[OF e, of c orc png k]
    obtain evs cl where "trace (snd (attempt_once c orc m png cb k w)) = trace w @ (evs @ cl) @ [Sleep PanelDelay]"
      by (metis append.assoc)
    from new_events_eq[OF this] show ?thesis by blast
  qed
  have b: "\<exists>pre post sid. new_events w (snd (attempt_once c orc m png cb k w)) =
           pre @ [Send_png sid png, Sleep Settle] @ post @ [Sleep PanelDelay]"
    if "fst (attempt_once c orc m png cb k w) = Inr (Some (True, msg))"
  proof -
    from attempt_once_settle[OF that]
    obtain pre post sid where "trace (snd (attempt_once c orc m png cb k w)) =
           trace w @ (pre @ [Send_png sid png, Sleep Settle] @ post @ [Sleep PanelDelay])"
      by auto
    from new_events_eq[OF this] show ?thesis by blast
  qed
  have d: "\<exists>evs. new_events w (snd (fall_back c orc m png cb w)) = evs @ [Sleep PanelDelay]"
    if "cb_quiet cb" "1 \<le> retries c"
  proof -
    from fall_back_paced[OF that, of orc m png w]
    obtain evs where "trace (snd (fall_back c orc m png cb w)) = trace w @ (evs @ [Sleep PanelDelay])"
      by auto
    from new_events_eq[OF this] show ?thesis by blast
  qed
  have p: "\<forall>p. Sleep p \<notin> set (new_events w (snd (persistent_path c orc m png dn cb w)))"
  proof -
    obtain evs where t: "trace (snd (persistent_path c orc m png dn cb w)) = trace w @ evs"
      and k: "\<forall>ev \<in> set evs. (\<exists>a. ev = New_BleDisplaySession a True 3) \<or> (\<exists>n. ev = Connect n) \<or>
                      (\<exists>n b. ev = Send_png n b) \<or> (\<exists>a b f. ev = Progress a b f)"
      using persistent_path_trace[of c orc m png dn cb w] by blast
    have "new_events w (snd (persistent_path c orc m png dn cb w)) = evs"
      by (rule new_events_eq[OF t])
    then show ?thesis using k by auto
  qed
  show ?thesis using a b d p by blast
qed

theorem pacing_rule_witness:
  "entered_try None ''AA:01'' initial_world \<and>
   cb_quiet None \<and> 1 \<le> retries \<lparr>retries = 1, use_persistent = False\<rparr> \<and>
   (\<exists>evs. new_events initial_world
        (snd (fall_back \<lparr>retries = 1, use_persistent = False\<rparr> all_ok ''AA:01'' [7] None initial_world))
      = evs @ [Sleep PanelDelay]) \<and>
   (\<exists>evs. new_events initial_world
        (snd (attempt_once \<lparr>retries = 1, use_persistent = False\<rparr> all_ok ''AA:01'' [7] None 1 initial_world))
      = evs @ [Sleep PanelDelay]) \<and>
   fst (attempt_once \<lparr>retries = 1, use_persistent = False\<rparr> all_ok ''AA:01'' [7] None 1 initial_world)
      = Inr (Some (True, ''OK'')) \<and>
   (\<exists>pre post sid. new_events initial_world
        (snd (attempt_once \<lparr>retries = 1, use_persistent = False\<rparr> all_ok ''AA:01'' [7] None 1 initial_world))
      = pre @ [Send_png sid [7], Sleep Settle] @ post @ [Sleep PanelDelay])"
proof -
  have h: "entered_try None ''AA:01'' initial_world"
    by (simp add: entered_try_def progress_def)
  have s: "fst (attempt_once \<lparr>retries = 1, use_persistent = False\<rparr> all_ok ''AA:01'' [7] None 1 initial_world)
      = Inr (Some (True, ''OK''))"
    by code_simp
  have q: "cb_quiet None" by (simp add: cb_quiet_def)
  have r: "1 \<le> retries \<lparr>retries = 1, use_persistent = False\<rparr>" by simp
  show ?thesis
    using pacing_rule[of None "''AA:01''" initial_world "\<lparr>retries = 1, use_persistent = False\<rparr>" all_ok "[7]" 1 "''OK''"] h s q r
    by blast
qed

text \<open>
  C7 as stated fails on the pooled path: a successful send over the pooled link returns
  \<open>(True, "OK")\<close> from line 247 with neither the settle pause nor \<open>panel_delay\<close>.
\<close>

theorem pacing_pooled_counterexample:
  "fst (send_to_panel \<lparr>retries = 3, use_persistent = True\<rparr> all_ok ''AA:01'' [7] None None initial_world)
     = Inr (True, ''OK'') \<and>
   trace (snd (send_to_panel \<lparr>retries = 3, use_persistent = True\<rparr> all_ok ''AA:01'' [7] None None initial_world))
     = [New_BleDisplaySession ''AA:01'' True 3, Connect 0, Send_png 0 [7]]"
  by code_simp

text \<open>
  C8. The pool is keyed by the upper-cased address: upper-casing is idempotent, two
  spellings with the same upper-case form are served identically by
  \<open>get_persistent_session\<close>, and the only key an acquisition can add is the upper-cased
  address. The outcomes of a fan-out carry the addresses exactly as the targets gave them.
\<close>

theorem address_keys:
  "upper (upper m) = upper m \<and>
   (upper a = upper b \<longrightarrow> get_persistent_session orc a nm w = get_persistent_session orc b nm w) \<and>
   set (map fst (PERSISTENT_SESSIONS (snd (get_persistent_session orc m nm w))))
     \<subseteq> insert (upper m) (set (map fst (PERSISTENT_SESSIONS w))) \<and>
   (fst (send_to_multiple c orc panels cb w) = Inr outs \<longrightarrow> map fst outs = map fst panels)"
proof -
  have 1: "get_persistent_session orc a nm w = get_persistent_session orc b nm w" if "upper a = upper b"
    using that gps_upper[of orc a nm w] gps_upper[of orc b nm w] by simp
  have 2: "map fst outs = map fst panels" if "fst (send_to_multiple c orc panels cb w) = Inr outs"
    using send_to_multiple_loop_result[of c orc cb "[]" panels w outs] that
    by (simp add: send_to_multiple_def)
  show ?thesis using 1 2 upper_idem[of m] gps_keys[of orc m nm w] by blast
qed

theorem address_keys_witness:
  "upper ''aa:0b'' = upper ''AA:0b'' \<and>
   get_persistent_session all_ok ''aa:0b'' ''left'' initial_world =
     get_persistent_session all_ok ''AA:0b'' ''left'' initial_world \<and>
   fst (send_to_multiple \<lparr>retries = 1, use_persistent = True\<rparr> all_ok [(''aa:0b'', ''left'', [])] None initial_world)
     = Inr [(''aa:0b'', True, ''OK'')] \<and>
   map fst [(''aa:0b'', True, ''OK'')] = map fst [(''aa:0b'', ''left'', ([]::bytes))]"
proof -
  have h: "upper ''aa:0b'' = upper ''AA:0b''" by code_simp
  have e: "fst (send_to_multiple \<lparr>retries = 1, use_persistent = True\<rparr> all_ok [(''aa:0b'', ''left'', [])] None initial_world)
     = Inr [(''aa:0b'', True, ''OK'')]" by code_simp
  show ?thesis
    using address_keys[where a = "''aa:0b''" and b = "''AA:0b''" and orc = all_ok and nm = "''left''"
        and w = initial_world and c = "\<lparr>retries = 1, use_persistent = True\<rparr>"
        and panels = "[(''aa:0b'', ''left'', [])]" and cb = None and outs = "[(''aa:0b'', True, ''OK'')]"] h e
    by blast
qed

text \<open>
  C8 as stated fails for the outcome: \<open>results.append((mac, success, message))\<close> reports
  the address as it was passed in, not the key of the pool.
\<close>

theorem outcome_address_counterexample:
  "fst (send_to_multiple \<lparr>retries = 1, use_persistent = True\<rparr> all_ok [(''aa:0b'', ''left'', [])] None initial_world)
     = Inr [(''aa:0b'', True, ''OK'')] \<and>
   map fst (PERSISTENT_SESSIONS (snd (send_to_multiple \<lparr>retries = 1, use_persistent = True\<rparr> all_ok
     [(''aa:0b'', ''left'', [])] None initial_world))) = [''AA:0B'']"
  by code_simp

text \<open>
  C10. With \<open>retries \<ge> 1\<close> the loop over \<open>range(1, retries + 1)\<close> never runs to its end,
  whatever the callback does: the last attempt returns or raises, so the statement after
  the loop is not reached. With \<open>retries \<ge> 1\<close> and a progress callback that is absent or
  returns from every call, \<open>send_to_panel\<close> returns an outcome, and that outcome is the
  one returned by the pooled path or, when the pooled path gave none, by an attempt of the
  loop. With \<open>retries \<le> 0\<close> the loop has no iteration: the fall-back returns
  \<open>(False, "Max retries exceeded")\<close> and leaves the world as it was, and so does
  \<open>send_to_panel\<close> whenever the pooled path gave no result, without constructing any
  fresh session.
\<close>

theorem max_retries_exit:
  "(1 \<le> retries c \<longrightarrow> fst (fresh_connection c orc m png cb [1..retries c] w) \<noteq> Inr None) \<and>
   (1 \<le> retries c \<and> cb_quiet cb \<longrightarrow>
      (\<exists>out. fst (send_to_panel c orc m png nm cb w) = Inr out \<and>
         (fst (persistent_path c orc m png (case nm of None \<Rightarrow> m | Some n \<Rightarrow> py_or n m) cb w) = Some (Inr out) \<or>
          fst (persistent_path c orc m png (case nm of None \<Rightarrow> m | Some n \<Rightarrow> py_or n m) cb w) = None \<and>
          fst (fresh_connection c orc m png cb [1..retries c]
                (snd (persistent_path c orc m png (case nm of None \<Rightarrow> m | Some n \<Rightarrow> py_or n m) cb w)))
            = Inr (Some out)))) \<and>
   (retries c \<le> 0 \<longrightarrow> fall_back c orc m png cb w = (Inr (False, ''Max retries exceeded''), w)) \<and>
   (retries c \<le> 0 \<and>
    fst (persistent_path c orc m png (case nm of None \<Rightarrow> m | Some n \<Rightarrow> py_or n m) cb w) = None \<longrightarrow>
      fst (send_to_panel c orc m png nm cb w) = Inr (False, ''Max retries exceeded'') \<and>
      (\<forall>a n. New_BleDisplaySession a False n \<notin> set (new_events w (snd (send_to_panel c orc m png nm cb w)))))"
proof -
  let ?dn = "case nm of None \<Rightarrow> m | Some n \<Rightarrow> py_or n m"
  have 1: "fst (fresh_connection c orc m png cb [1..retries c] w0) \<noteq> Inr None" if "1 \<le> retries c" for w0
    using upto_last[OF that] fresh_connection_final[of "[1..retries c]" c orc m png cb w0] by simp
  have 2: "\<exists>out. fst (send_to_panel c orc m png nm cb w) = Inr out \<and>
         (fst (persistent_path c orc m png ?dn cb w) = Some (Inr out) \<or>
          fst (persistent_path c orc m png ?dn cb w) = None \<and>
          fst (fresh_connection c orc m png cb [1..retries c] (snd (persistent_path c orc m png ?dn cb w)))
            = Inr (Some out))"
    if r: "1 \<le> retries c" and q: "cb_quiet cb"
  proof -
    obtain pr w1 where p: "persistent_path c orc m png ?dn cb w = (pr, w1)"
      by (cases "persistent_path c orc m png ?dn cb w") auto
    have "pr = None \<or> pr = Some (Inr (True, ''OK''))"
      using persistent_path_quiet[OF q, of c orc m png ?dn w] p by simp
    then show ?thesis
    proof
      assume n: "pr = None"
      obtain fr w2 where f: "fresh_connection c orc m png cb [1..retries c] w1 = (fr, w2)"
        by (cases "fresh_connection c orc m png cb [1..retries c] w1") auto
      obtain ro where "fr = Inr ro"
        using fresh_connection_quiet[OF q, of c orc m png "[1..retries c]" w1] f by auto
      moreover have "fr \<noteq> Inr None" using 1[OF r, of w1] f by simp
      ultimately obtain out where fr: "fr = Inr (Some out)" by (cases ro) auto
      have "fst (send_to_panel c orc m png nm cb w) = Inr out"
        using p n f fr by (simp add: send_to_panel_def fall_back_def)
      then show ?thesis using p n f fr by auto
    next
      assume s: "pr = Some (Inr (True, ''OK''))"
      then have "fst (send_to_panel c orc m png nm cb w) = Inr (True, ''OK'')"
        using p by (simp add: send_to_panel_def)
      then show ?thesis using p s by auto
    qed
  qed
  have 3: "fst (send_to_panel c orc m png nm cb w) = Inr (False, ''Max retries exceeded'') \<and>
      (\<forall>a n. New_BleDisplaySession a False n \<notin> set (new_events w (snd (send_to_panel c orc m png nm cb w))))"
    if r: "retries c \<le> 0" and n: "fst (persistent_path c orc m png ?dn cb w) = None"
  proof -
    obtain w1 where p: "persistent_path c orc m png ?dn cb w = (None, w1)"
      using n by (cases "persistent_path c orc m png ?dn cb w") auto
    have s: "send_to_panel c orc m png nm cb w = (Inr (False, ''Max retries exceeded''), w1)"
      using p fall_back_zero[OF r, of orc m png cb w1] by (simp add: send_to_panel_def)
    obtain evs where t: "trace w1 = trace w @ evs"
      and k: "\<forall>ev \<in> set evs. (\<exists>a. ev = New_BleDisplaySession a True 3) \<or> (\<exists>n. ev = Connect n) \<or>
                      (\<exists>n b. ev = Send_png n b) \<or> (\<exists>a b f. ev = Progress a b f)"
      using persistent_path_trace[of c orc m png ?dn cb w] p by auto
    have "new_events w w1 = evs" by (rule new_events_eq[OF t])
    then show ?thesis using s k by auto
  qed
  show ?thesis using 1[of w] 2 3 fall_back_zero[of c orc m png cb w] by blast
qed

theorem max_retries_exit_witness:
  "1 \<le> retries \<lparr>retries = 1, use_persistent = False\<rparr> \<and> cb_quiet None \<and>
   fst (fresh_connection \<lparr>retries = 1, use_persistent = False\<rparr> (\<lambda>n. Fail TimeoutError) ''AA:01'' [] None
          [1..retries \<lparr>retries = 1, use_persistent = False\<rparr>] initial_world) \<noteq> Inr None \<and>
   (\<exists>out. fst (send_to_panel \<lparr>retries = 1, use_persistent = False\<rparr> (\<lambda>n. Fail TimeoutError) ''AA:01'' [] None None
          initial_world) = Inr out) \<and>
   retries \<lparr>retries = 0, use_persistent = False\<rparr> \<le> 0 \<and>
   fst (persistent_path \<lparr>retries = 0, use_persistent = False\<rparr> all_ok ''AA:01'' []
          (case None of None \<Rightarrow> ''AA:01'' | Some n \<Rightarrow> py_or n ''AA:01'') None initial_world) = None \<and>
   fst (send_to_panel \<lparr>retries = 0, use_persistent = False\<rparr> all_ok ''AA:01'' [] None None initial_world)
     = Inr (False, ''Max retries exceeded'')"
proof -
  have h1: "1 \<le> retries \<lparr>retries = 1, use_persistent = False\<rparr>" by simp
  have h2: "retries \<lparr>retries = 0, use_persistent = False\<rparr> \<le> 0" by simp
  have h3: "fst (persistent_path \<lparr>retries = 0, use_persistent = False\<rparr> all_ok ''AA:01'' []
          (case None of None \<Rightarrow> ''AA:01'' | Some n \<Rightarrow> py_or n ''AA:01'') None initial_world) = None"
    by (simp add: persistent_path_def)
  have h4: "cb_quiet None" by (simp add: cb_quiet_def)
  show ?thesis
    using max_retries_exit[where c = "\<lparr>retries = 1, use_persistent = False\<rparr>" and orc = "\<lambda>n. Fail TimeoutError"
        and m = "''AA:01''" and png = "[]" and cb = None and w = initial_world and nm = None]
      max_retries_exit[where c = "\<lparr>retries = 0, use_persistent = False\<rparr>" and orc = all_ok
        and m = "''AA:01''" and png = "[]" and cb = None and w = initial_world and nm = None]
      h1 h2 h3 h4
    by blast
qed

text \<open>
  C10 as stated fails in "always returns": with \<open>retries = 1\<close> the \<open>"connecting"\<close> report
  of the only attempt is made outside the \<open>try\<close>, and when it raises, \<open>send_to_panel\<close>
  raises instead of returning.
\<close>

theorem max_retries_callback_counterexample:
  "1 \<le> retries \<lparr>retries = 1, use_persistent = False\<rparr> \<and>
   fst (send_to_panel \<lparr>retries = 1, use_persistent = False\<rparr> all_ok ''AA:01'' [] None
          (Some always_raises) initial_world) = Inl (Exception ''boom'')"
  by code_simp

text \<open>
  C9. \<open>close_all_sessions\<close> calls \<open>disconnect\<close> on every held link of the pool, in the
  order of the dictionary: every link that has a session object gets its
  \<open>_safe_disconnect\<close> call, whatever the earlier calls answered, and an exception of that
  call is dropped. The call does not raise, and it leaves the pool empty. A second call
  right after the first returns without raising and changes nothing: no call to a
  collaborator is made and the world is the one the first call left.
\<close>

theorem close_all_sessions_drains:
  "fst (close_all_sessions orc w) = Inr () \<and>
   PERSISTENT_SESSIONS (snd (close_all_sessions orc w)) = [] \<and>
   trace (snd (close_all_sessions orc w)) = trace w @ closed_sessions (PERSISTENT_SESSIONS w) \<and>
   close_all_sessions orc' (snd (close_all_sessions orc w)) = (Inr (), snd (close_all_sessions orc w))"
  using close_all_result[of orc w] close_all_empty[of "snd (close_all_sessions orc w)" orc']
  by simp

theorem close_all_sessions_drains_witness:
  "fst (close_all_sessions (\<lambda>n. Fail (Exception ''gone'')) three_links) = Inr () \<and>
   trace (snd (close_all_sessions (\<lambda>n. Fail (Exception ''gone'')) three_links)) =
     [Safe_disconnect 0, Safe_disconnect 4]"
  using close_all_sessions_drains [of "\<lambda>n. Fail (Exception ''gone'')" three_links]
  by (simp add: closed_sessions_def three_links_def)

end
